theory Spec2Isabelle
  imports Main
begin

section \<open>The feed-to-chat pipeline of main.py\<close>

text \<open>
  A shallow embedding of \<^verbatim>\<open>src/main.py\<close>. Python strings are lists of
  characters; the model covers the code points below 256, on which the digit class of
  the regular expressions is exactly the ten ASCII digits. Exceptions are values of
  \<open>py_error\<close>. Everything the program does to the outside (HTTP requests, the
  key-value store, the chat API, sleeping, logging) is appended to a trace of events, and
  what the outside answers is given by an environment of oracles that see the trace so
  far; the key-value store itself is part of the state. A parsed feed always has its list
  of entries (the feed parser creates that key for every document), so a feed is the list
  of its entries, and an entry is the fields it has. The configuration dict is the list of
  its pairs, in their order.
\<close>

subsection \<open>Errors, records, events\<close>

datatype py_error =
    NameError string         \<comment> \<open>an unbound global name was evaluated\<close>
  | KeyError string          \<comment> \<open>a feed entry lacks a field\<close>
  | AttributeError           \<comment> \<open>\<^verbatim>\<open>.group()\<close> on the \<^verbatim>\<open>None\<close> of a failed search\<close>
  | DownloadFailed           \<comment> \<open>\<^verbatim>\<open>Exception('Failed to download RSS.')\<close>\<close>
  | RedisError               \<comment> \<open>raised by the store client\<close>

text \<open>A feed entry: each field is present or missing.\<close>

record entry =
  e_title :: "string option"
  e_author :: "string option"
  e_published :: "string option"
  e_link :: "string option"
  e_summary :: "string option"

text \<open>The dict that \<^verbatim>\<open>parse\<close> builds for an accepted entry.\<close>

record item =
  title :: string
  author :: string
  published :: string
  link :: string
  album_id :: string
  cover :: string

datatype fetch_outcome =
    FetchRaises              \<comment> \<open>the request or the feed parser raised\<close>
  | FetchEmpty               \<comment> \<open>the parsed feed is falsy\<close>
  | FetchFeed "entry list"   \<comment> \<open>a truthy parsed feed with these entries\<close>

datatype tg_outcome =
    TgRaises                 \<comment> \<open>transport error or malformed acknowledgment\<close>
  | TgAck bool               \<comment> \<open>the truth value of the \<^verbatim>\<open>ok\<close> field\<close>

datatype log_msg =
    LAppStart | LAppEnd
  | LArtist string string
  | LFilteredCount nat nat
  | LDownloading | LFetchAttempt nat | LFetchFailed | LFetchSucceed
  | LParsing | LEntryLink string | LEntryException py_error | LParseEnd nat nat
  | LSendAlbum string string | LSendSucceed string string | LTgReturns
  | LSendPhotoFailed string string | LSendMessageFailed string
  | LSendException | LSendFailed string string
  | LRedisAttempt nat | LRedisSucceed string | LRedisFailed | LRedisGaveUp string

datatype event =
    Log log_msg
  | Sleep nat
  | HttpGet string
  | RedisExists string
  | RedisSet string string nat
  | TgPost string "(string \<times> string) list"

record world =
  store :: "string \<rightharpoonup> string \<times> nat"
  trace :: "event list"

record env =
  CHAT_ID :: string
  TG_TOKEN :: string
  CONFIGS :: "(string \<times> string) list"
  http_get :: "event list \<Rightarrow> string \<Rightarrow> fetch_outcome"
  tg_post :: "event list \<Rightarrow> string \<Rightarrow> (string \<times> string) list \<Rightarrow> tg_outcome"
  redis_up :: "event list \<Rightarrow> bool"

definition emit :: "event \<Rightarrow> world \<Rightarrow> world" where
  "emit ev w = w\<lparr>trace := trace w @ [ev]\<rparr>"

definition log :: "log_msg \<Rightarrow> world \<Rightarrow> world" where
  "log m w = emit (Log m) w"

definition sleep :: "nat \<Rightarrow> world \<Rightarrow> world" where
  "sleep n w = emit (Sleep n) w"

subsection \<open>escape and construct_params\<close>

text \<open>\<^verbatim>\<open>str.replace\<close> for a pattern of one character.\<close>

definition replace :: "char \<Rightarrow> string \<Rightarrow> string \<Rightarrow> string" where
  "replace old new text = concat (map (\<lambda>c. if c = old then new else [c]) text)"

definition backslash :: char where
  "backslash = CHR 0x5C"

definition escape_chars :: "char list" where
  "escape_chars =
     [CHR ''_'', CHR 0x2A, CHR ''['', CHR '']'', CHR 0x28, CHR 0x29, CHR ''~'', CHR 0x60,
      CHR ''>'', CHR ''#'', CHR ''+'', CHR ''-'', CHR ''='', CHR ''|'', CHR 0x7B, CHR 0x7D,
      CHR ''.'', CHR ''!'']"

definition escape :: "string \<Rightarrow> string" where
  "escape text = foldl (\<lambda>t escape_char. replace escape_char [backslash, escape_char] t) text escape_chars"

definition construct_params :: "item \<Rightarrow> string \<times> string \<times> string" where
  "construct_params it =
     (cover it,
      [backslash, CHR ''#''] @ album_id it @ [CHR 0x0A] @
      [CHR 0x2A] @ escape (title it) @ [CHR 0x2A, CHR 0x0A] @
      [CHR 0x0A] @
      escape (author it) @ [CHR 0x0A] @
      [CHR 0x0A] @
      escape (link it),
      album_id it)"

text \<open>Reading an escaped text back: one backslash before a reserved character is dropped.\<close>

fun unescape :: "string \<Rightarrow> string" where
  "unescape (b # c # cs) =
     (if b = backslash \<and> c \<in> set escape_chars then c # unescape cs else b # unescape (c # cs))"
| "unescape cs = cs"

text \<open>Every reserved character of a text stands right after a backslash.\<close>

fun all_escaped :: "string \<Rightarrow> bool" where
  "all_escaped [] = True"
| "all_escaped [c] = (c \<notin> set escape_chars)"
| "all_escaped (b # c # cs) =
     (b \<notin> set escape_chars \<and>
      (if b = backslash \<and> c \<in> set escape_chars then all_escaped cs else all_escaped (c # cs)))"

text \<open>What escape does to one character.\<close>

definition esc1 :: "char \<Rightarrow> string" where
  "esc1 c = (if c \<in> set escape_chars then [backslash, c] else [c])"

subsection \<open>The two regular-expression searches of parse\<close>

definition is_digit :: "char \<Rightarrow> bool" where
  "is_digit c = (c \<in> set ''0123456789'')"

text \<open>
  The whitespace class on code points below 256: tab to carriage return, the four
  separators 28 to 31, space, next-line and no-break space.
\<close>

definition is_space :: "char \<Rightarrow> bool" where
  "is_space c = (of_char c \<in> set ([9, 10, 11, 12, 13, 28, 29, 30, 31, 32, 133, 160] :: nat list))"

text \<open>
  Searching for a run of 4 to 15 digits: the leftmost position where at least four digits
  follow, and greedily up to fifteen of them.
\<close>

fun search_digits :: "string \<Rightarrow> string option" where
  "search_digits [] = None"
| "search_digits (c # cs) =
     (let run = takeWhile is_digit (c # cs)
      in if 4 \<le> length run then Some (take 15 run) else search_digits cs)"

text \<open>
  The cover pattern: a fixed prefix in which the three dots of the host name are not
  escaped and so stand for any character but a newline, then greedily every character
  that is neither a double quote nor whitespace.
\<close>

datatype pat = Lit char | Dot

definition pat_ok :: "pat \<Rightarrow> char \<Rightarrow> bool" where
  "pat_ok p c = (case p of Lit l \<Rightarrow> c = l | Dot \<Rightarrow> c \<noteq> CHR 0x0A)"

definition cover_prefix :: "pat list" where
  "cover_prefix =
     map Lit ''https://p1'' @ [Dot] @ map Lit ''music'' @ [Dot] @ map Lit ''126'' @ [Dot] @
     map Lit ''net/''"

fun match_prefix :: "pat list \<Rightarrow> string \<Rightarrow> bool" where
  "match_prefix [] s = True"
| "match_prefix (p # ps) [] = False"
| "match_prefix (p # ps) (c # cs) = (pat_ok p c \<and> match_prefix ps cs)"

definition cover_tail :: "char \<Rightarrow> bool" where
  "cover_tail c = (c \<noteq> CHR 0x22 \<and> \<not> is_space c)"

definition match_cover_here :: "string \<Rightarrow> string option" where
  "match_cover_here s =
     (if match_prefix cover_prefix s
      then Some (take (length cover_prefix) s @ takeWhile cover_tail (drop (length cover_prefix) s))
      else None)"

fun search_cover :: "string \<Rightarrow> string option" where
  "search_cover [] = match_cover_here []"
| "search_cover (c # cs) =
     (case match_cover_here (c # cs) of Some m \<Rightarrow> Some m | None \<Rightarrow> search_cover cs)"

subsection \<open>parse\<close>

definition get_field :: "string \<Rightarrow> string option \<Rightarrow> py_error + string" where
  "get_field name v = (case v of None \<Rightarrow> Inl (KeyError name) | Some s \<Rightarrow> Inr s)"

definition group :: "string option \<Rightarrow> py_error + string" where
  "group m = (case m of None \<Rightarrow> Inl AttributeError | Some s \<Rightarrow> Inr s)"

text \<open>The body of the try block for one entry; the link is logged once it has been read.\<close>

definition parse_entry :: "entry \<Rightarrow> world \<Rightarrow> (py_error + item) \<times> world" where
  "parse_entry e w =
     (case get_field ''title'' (e_title e) of Inl err \<Rightarrow> (Inl err, w) | Inr t \<Rightarrow>
      case get_field ''author'' (e_author e) of Inl err \<Rightarrow> (Inl err, w) | Inr a \<Rightarrow>
      case get_field ''published'' (e_published e) of Inl err \<Rightarrow> (Inl err, w) | Inr p \<Rightarrow>
      case get_field ''link'' (e_link e) of Inl err \<Rightarrow> (Inl err, w) | Inr l \<Rightarrow>
      let w1 = log (LEntryLink l) w in
      case group (search_digits l) of Inl err \<Rightarrow> (Inl err, w1) | Inr aid \<Rightarrow>
      case get_field ''summary'' (e_summary e) of Inl err \<Rightarrow> (Inl err, w1) | Inr s \<Rightarrow>
      case group (search_cover s) of Inl err \<Rightarrow> (Inl err, w1) | Inr cv \<Rightarrow>
      (Inr \<lparr>title = t, author = a, published = p, link = l, album_id = aid, cover = cv\<rparr>, w1))"

fun parse_loop :: "entry list \<Rightarrow> item list \<Rightarrow> world \<Rightarrow> item list \<times> world" where
  "parse_loop [] items w = (items, w)"
| "parse_loop (e # es) items w =
     (case parse_entry e w of
        (Inr it, w1) \<Rightarrow> parse_loop es (items @ [it]) w1
      | (Inl err, w1) \<Rightarrow> parse_loop es items (log (LEntryException err) w1))"

definition parse :: "entry list \<Rightarrow> world \<Rightarrow> item list \<times> world" where
  "parse entries w =
     (let (items, w1) = parse_loop entries [] (log LParsing w)
      in (items, log (LParseEnd (length items) (length entries)) w1))"

text \<open>
  An entry as the specification counts it: the four fields are there, the link has four
  digits in a row somewhere, and the summary has the cover prefix somewhere.
\<close>

definition has_id_pattern :: "string \<Rightarrow> bool" where
  "has_id_pattern l = (\<exists>pre ds suf. l = pre @ ds @ suf \<and> length ds = 4 \<and> list_all is_digit ds)"

definition has_cover_pattern :: "string \<Rightarrow> bool" where
  "has_cover_pattern s = (\<exists>pre suf. s = pre @ suf \<and> match_prefix cover_prefix suf)"

definition well_formed :: "entry \<Rightarrow> bool" where
  "well_formed e =
     (e_title e \<noteq> None \<and> e_author e \<noteq> None \<and> e_published e \<noteq> None \<and>
      (case e_link e of None \<Rightarrow> False | Some l \<Rightarrow> has_id_pattern l) \<and>
      (case e_summary e of None \<Rightarrow> False | Some s \<Rightarrow> has_cover_pattern s))"

subsection \<open>Global names\<close>

text \<open>
  The module binds two string-valued configuration names, \<^verbatim>\<open>CHAT_ID\<close> and
  \<^verbatim>\<open>TG_TOKEN\<close>. No statement of the module binds \<^verbatim>\<open>rj_code\<close> or
  \<^verbatim>\<open>rss_author\<close>: evaluating either raises NameError.
\<close>

definition lookup_global :: "env \<Rightarrow> string \<Rightarrow> py_error + string" where
  "lookup_global env n =
     (if n = ''CHAT_ID'' then Inr (CHAT_ID env)
      else if n = ''TG_TOKEN'' then Inr (TG_TOKEN env)
      else Inl (NameError n))"

text \<open>Subscripting the configuration dict.\<close>

definition configs_get :: "env \<Rightarrow> string \<Rightarrow> py_error + string" where
  "configs_get env k = (case map_of (CONFIGS env) k of None \<Rightarrow> Inl (KeyError k) | Some v \<Rightarrow> Inr v)"

subsection \<open>The collaborators: store client, HTTP client, chat API\<close>

definition redis_exists :: "env \<Rightarrow> string \<Rightarrow> world \<Rightarrow> (py_error + bool) \<times> world" where
  "redis_exists env k w =
     (let w1 = emit (RedisExists k) w
      in if redis_up env (trace w) then (Inr (store w k \<noteq> None), w1) else (Inl RedisError, w1))"

definition redis_SET :: "env \<Rightarrow> string \<Rightarrow> string \<Rightarrow> nat \<Rightarrow> world \<Rightarrow> (py_error + bool) \<times> world" where
  "redis_SET env k v ex w =
     (let w1 = emit (RedisSet k v ex) w
      in if redis_up env (trace w) then (Inr True, w1\<lparr>store := (store w1)(k \<mapsto> (v, ex))\<rparr>)
         else (Inl RedisError, w1))"

definition fetch :: "env \<Rightarrow> string \<Rightarrow> world \<Rightarrow> fetch_outcome \<times> world" where
  "fetch env url w = (http_get env (trace w) url, emit (HttpGet url) w)"

definition post :: "env \<Rightarrow> string \<Rightarrow> (string \<times> string) list \<Rightarrow> world \<Rightarrow> tg_outcome \<times> world" where
  "post env target params w = (tg_post env (trace w) target params, emit (TgPost target params) w)"

subsection \<open>rss_url_generator and download\<close>

definition rss_url_generator :: "env \<Rightarrow> (string \<times> string) list" where
  "rss_url_generator env =
     map (\<lambda>(artist_name, artist_id). (artist_name, ''https://rsshub.app/ncm/artist/'' @ artist_id))
       (CONFIGS env)"

text \<open>
  The retry loop over \<^verbatim>\<open>range(3)\<close>. The result is the feed when an attempt gave a
  truthy one (the loop breaks there), and nothing when the variable is still falsy at the
  end. Only an attempt that raised sleeps.
\<close>

fun download_loop :: "env \<Rightarrow> string \<Rightarrow> nat list \<Rightarrow> world \<Rightarrow> entry list option \<times> world" where
  "download_loop env url [] w = (None, w)"
| "download_loop env url (retry # rest) w =
     (case fetch env url (log (LFetchAttempt (retry + 1)) w) of
        (FetchFeed es, w1) \<Rightarrow> (Some es, w1)
      | (FetchEmpty, w1) \<Rightarrow> download_loop env url rest w1
      | (FetchRaises, w1) \<Rightarrow> download_loop env url rest (sleep 6 (log LFetchFailed w1)))"

definition download :: "env \<Rightarrow> string \<Rightarrow> world \<Rightarrow> (py_error + entry list) \<times> world" where
  "download env url w =
     (case download_loop env url [0..<3] (log LDownloading w) of
        (None, w1) \<Rightarrow> (Inl DownloadFailed, w1)
      | (Some es, w1) \<Rightarrow> (Inr es, log LFetchSucceed w1))"

subsection \<open>send\<close>

definition send_photo :: "env \<Rightarrow> string \<Rightarrow> string \<Rightarrow> string \<Rightarrow> item \<Rightarrow> world \<Rightarrow> bool \<times> world" where
  "send_photo env chat_id photo caption it w =
     (let target = ''https://api.telegram.org/bot'' @ TG_TOKEN env @ ''/sendPhoto'';
          params = [(''chat_id'', chat_id), (''photo'', photo), (''caption'', caption)]
      in case post env target params w of
           (TgAck True, w1) \<Rightarrow> (True, log (LSendSucceed (title it) (album_id it)) w1)
         | (TgAck False, w1) \<Rightarrow>
             (False, log (LSendFailed (title it) (album_id it))
                       (log (LSendPhotoFailed photo caption) (log LTgReturns w1)))
         | (TgRaises, w1) \<Rightarrow>
             (False, log (LSendFailed (title it) (album_id it)) (log LSendException w1)))"

definition send_message :: "env \<Rightarrow> string \<Rightarrow> string \<Rightarrow> item \<Rightarrow> world \<Rightarrow> bool \<times> world" where
  "send_message env chat_id caption it w =
     (let target = ''https://api.telegram.org/bot'' @ TG_TOKEN env @ ''/sendMessage'';
          params = [(''chat_id'', chat_id), (''parse_mode'', ''MarkdownV2''), (''text'', caption)]
      in case post env target params w of
           (TgAck True, w1) \<Rightarrow> (True, log (LSendSucceed (title it) (album_id it)) w1)
         | (TgAck False, w1) \<Rightarrow>
             (False, log (LSendFailed (title it) (album_id it))
                       (log (LSendMessageFailed caption) (log LTgReturns w1)))
         | (TgRaises, w1) \<Rightarrow>
             (False, log (LSendFailed (title it) (album_id it)) (log LSendException w1)))"

definition send :: "env \<Rightarrow> string \<Rightarrow> string \<Rightarrow> string \<Rightarrow> item \<Rightarrow> world \<Rightarrow> bool \<times> world" where
  "send env chat_id photo caption it w =
     (let w0 = log (LSendAlbum (title it) (album_id it)) w
      in if photo \<noteq> [] then send_photo env chat_id photo caption it w0
         else send_message env chat_id caption it w0)"

subsection \<open>filter and redis_set\<close>

definition filter_item :: "env \<Rightarrow> item \<Rightarrow> world \<Rightarrow> (py_error + bool) \<times> world" where
  "filter_item env it w =
     (case redis_exists env (album_id it) w of
        (Inl err, w1) \<Rightarrow> (Inl err, w1)
      | (Inr found, w1) \<Rightarrow> (Inr (if found then True else False), w1))"

text \<open>The list comprehension of main that keeps the items filter rejects.\<close>

fun filter_items :: "env \<Rightarrow> item list \<Rightarrow> world \<Rightarrow> (py_error + item list) \<times> world" where
  "filter_items env [] w = (Inr [], w)"
| "filter_items env (it # its) w =
     (case filter_item env it w of
        (Inl err, w1) \<Rightarrow> (Inl err, w1)
      | (Inr sent, w1) \<Rightarrow>
          (case filter_items env its w1 of
             (Inl err, w2) \<Rightarrow> (Inl err, w2)
           | (Inr kept, w2) \<Rightarrow> (Inr (if \<not> sent then it # kept else kept), w2)))"

text \<open>
  The retry loop over \<^verbatim>\<open>range(5)\<close>. The key of the write is the global name
  \<^verbatim>\<open>rj_code\<close>, evaluated before the client is called; every exception of the try
  block is caught, logged and followed by a sleep.
\<close>

fun redis_set_loop :: "env \<Rightarrow> string \<Rightarrow> nat list \<Rightarrow> world \<Rightarrow> bool \<times> world" where
  "redis_set_loop env aid [] w = (False, log (LRedisGaveUp aid) w)"
| "redis_set_loop env aid (retry # rest) w =
     (let w1 = log (LRedisAttempt (retry + 1)) w
      in case lookup_global env ''rj_code'' of
           Inl err \<Rightarrow> redis_set_loop env aid rest (sleep 6 (log LRedisFailed w1))
         | Inr k \<Rightarrow>
             (case redis_SET env k ''sent'' 64281600 w1 of
                (Inl err, w2) \<Rightarrow> redis_set_loop env aid rest (sleep 6 (log LRedisFailed w2))
              | (Inr True, w2) \<Rightarrow> (True, log (LRedisSucceed aid) w2)
              | (Inr False, w2) \<Rightarrow> redis_set_loop env aid rest w2))"

definition redis_set :: "env \<Rightarrow> string \<Rightarrow> world \<Rightarrow> bool \<times> world" where
  "redis_set env aid w = redis_set_loop env aid [0..<5] w"

subsection \<open>main\<close>

text \<open>The first argument of the call of send: the configuration dict at \<^verbatim>\<open>rss_author\<close>.\<close>

definition chat_target :: "env \<Rightarrow> py_error + string" where
  "chat_target env =
     (case lookup_global env ''rss_author'' of Inl err \<Rightarrow> Inl err | Inr k \<Rightarrow> configs_get env k)"

text \<open>Deliver one item to an evaluated chat target, and commit when send returned true.\<close>

definition deliver_commit :: "env \<Rightarrow> string \<Rightarrow> item \<Rightarrow> world \<Rightarrow> world" where
  "deliver_commit env chat it w =
     (case construct_params it of (photo, caption, aid) \<Rightarrow>
        (case send env chat photo caption it w of
           (True, w1) \<Rightarrow> sleep 10 (snd (redis_set env aid w1))
         | (False, w1) \<Rightarrow> w1))"

fun send_loop :: "env \<Rightarrow> item list \<Rightarrow> world \<Rightarrow> (py_error + unit) \<times> world" where
  "send_loop env [] w = (Inr (), w)"
| "send_loop env (it # its) w =
     (case chat_target env of
        Inl err \<Rightarrow> (Inl err, w)
      | Inr chat \<Rightarrow> send_loop env its (deliver_commit env chat it w))"

text \<open>The body of the loop over the sources.\<close>

definition process_source :: "env \<Rightarrow> string \<times> string \<Rightarrow> world \<Rightarrow> (py_error + unit) \<times> world" where
  "process_source env src w =
     (case src of (artist_name, rss_url) \<Rightarrow>
        (case download env rss_url (log (LArtist artist_name rss_url) w) of
           (Inl err, w1) \<Rightarrow> (Inl err, w1)
         | (Inr rss_json, w1) \<Rightarrow>
             (case parse rss_json w1 of (items, w2) \<Rightarrow>
                (case filter_items env items w2 of
                   (Inl err, w3) \<Rightarrow> (Inl err, w3)
                 | (Inr filtered_items, w3) \<Rightarrow>
                     send_loop env filtered_items
                       (log (LFilteredCount (length filtered_items) (length items)) w3)))))"

fun main_loop :: "env \<Rightarrow> (string \<times> string) list \<Rightarrow> world \<Rightarrow> (py_error + unit) \<times> world" where
  "main_loop env [] w = (Inr (), w)"
| "main_loop env (src # srcs) w =
     (case process_source env src w of
        (Inl err, w1) \<Rightarrow> (Inl err, w1)
      | (Inr u, w1) \<Rightarrow> main_loop env srcs w1)"

definition main :: "env \<Rightarrow> world \<Rightarrow> (py_error + unit) \<times> world" where
  "main env w =
     (case main_loop env (rss_url_generator env) (log LAppStart w) of
        (Inl err, w1) \<Rightarrow> (Inl err, w1)
      | (Inr u, w1) \<Rightarrow> (Inr (), log LAppEnd w1))"

text \<open>The process starts with the store as it is and nothing done yet.\<close>

definition start :: "(string \<rightharpoonup> string \<times> nat) \<Rightarrow> world" where
  "start st = \<lparr>store = st, trace = []\<rparr>"

text \<open>The interpreter exits with 0 when main returns and with 1 on an uncaught exception.\<close>

definition exit_status :: "py_error + unit \<Rightarrow> nat" where
  "exit_status r = (case r of Inl err \<Rightarrow> 1 | Inr u \<Rightarrow> 0)"

subsection \<open>Observations on a trace\<close>

definition is_post :: "event \<Rightarrow> bool" where
  "is_post ev = (case ev of TgPost target params \<Rightarrow> True | _ \<Rightarrow> False)"

definition is_get :: "event \<Rightarrow> bool" where
  "is_get ev = (case ev of HttpGet url \<Rightarrow> True | _ \<Rightarrow> False)"

definition is_write :: "event \<Rightarrow> bool" where
  "is_write ev = (case ev of RedisSet k v ex \<Rightarrow> True | _ \<Rightarrow> False)"

definition is_commit_attempt :: "event \<Rightarrow> bool" where
  "is_commit_attempt ev = (case ev of Log (LRedisAttempt n) \<Rightarrow> True | _ \<Rightarrow> False)"

text \<open>The events a step added to the trace.\<close>

definition added :: "world \<Rightarrow> world \<Rightarrow> event list" where
  "added w w' = drop (length (trace w)) (trace w')"

subsection \<open>Observations used in the statements\<close>

text \<open>An answer to a request that is not a truthy feed.\<close>

definition not_feed :: "fetch_outcome \<Rightarrow> bool" where
  "not_feed out = (case out of FetchFeed es \<Rightarrow> False | _ \<Rightarrow> True)"

text \<open>
  The answers the requests of a stretch of events got: for each request, what the HTTP oracle
  said on the trace up to it.
\<close>

fun answers :: "env \<Rightarrow> event list \<Rightarrow> event list \<Rightarrow> fetch_outcome list" where
  "answers env pre [] = []"
| "answers env pre (ev # evs) =
     (case ev of
        HttpGet url \<Rightarrow> http_get env pre url # answers env (pre @ [ev]) evs
      | _ \<Rightarrow> answers env (pre @ [ev]) evs)"

text \<open>The first thing send does is to log the album it sends.\<close>

definition is_send_call :: "event \<Rightarrow> bool" where
  "is_send_call ev = (case ev of Log (LSendAlbum t i) \<Rightarrow> True | _ \<Rightarrow> False)"

text \<open>An event that is neither a chat request, a store write, a commit attempt nor a call of send.\<close>

definition silent :: "event \<Rightarrow> bool" where
  "silent ev =
     (case ev of
        TgPost target params \<Rightarrow> False
      | RedisSet k v ex \<Rightarrow> False
      | Log (LRedisAttempt n) \<Rightarrow> False
      | Log (LSendAlbum t i) \<Rightarrow> False
      | _ \<Rightarrow> True)"

text \<open>The log line of main that counts the items left by the filter, with a positive count.\<close>

definition survivor_log :: "event \<Rightarrow> bool" where
  "survivor_log ev = (case ev of Log (LFilteredCount k n) \<Rightarrow> 0 < k | _ \<Rightarrow> False)"

definition survivors :: "event list \<Rightarrow> bool" where
  "survivors evs = list_ex survivor_log evs"

text \<open>Silent, and not a positive survivor count.\<close>

definition plain :: "event \<Rightarrow> bool" where
  "plain ev = (silent ev \<and> \<not> survivor_log ev)"

text \<open>A step that keeps the store and adds plain events only.\<close>

definition step_ok :: "world \<Rightarrow> world \<Rightarrow> bool" where
  "step_ok w w' = (store w' = store w \<and> (\<exists>evs. trace w' = trace w @ evs \<and> list_all plain evs))"

text \<open>
  What a pass, or a part of one, can come to: the store is kept, and either the pass stops
  with the NameError of the chat target right after logging a positive survivor count,
  or it comes back, or stops with a download or store error, having added plain events only.
\<close>

definition pass_ok :: "world \<Rightarrow> (py_error + unit) \<times> world \<Rightarrow> bool" where
  "pass_ok w r =
     (store (snd r) = store w \<and>
      (fst r = Inl (NameError ''rss_author'') \<and>
         (\<exists>evs k m. trace (snd r) = trace w @ evs @ [Log (LFilteredCount k m)] \<and> 0 < k \<and>
            list_all plain evs)
       \<or> (fst r = Inr () \<or> fst r = Inl DownloadFailed \<or> fst r = Inl RedisError) \<and>
         step_ok w (snd r)))"

text \<open>What the attempts of redis_set leave in the trace.\<close>

definition commit_events :: "nat list \<Rightarrow> event list" where
  "commit_events rs = concat (map (\<lambda>r. [Log (LRedisAttempt (r + 1)), Log LRedisFailed, Sleep 6]) rs)"

subsection \<open>The record of a well-formed entry\<close>

text \<open>
  What the specification expects for an accepted entry: the four fields as they are, the
  id found in the link and the cover found in the summary.
\<close>

definition record_of :: "entry \<Rightarrow> item" where
  "record_of e =
     \<lparr>title = the (e_title e), author = the (e_author e), published = the (e_published e),
      link = the (e_link e), album_id = the (search_digits (the (e_link e))),
      cover = the (search_cover (the (e_summary e)))\<rparr>"

subsection \<open>Concrete inputs\<close>

text \<open>
  One well-formed entry and its record; a proxy that never answers two sources; a proxy
  that serves the entry, with a chat API that acknowledges, or refuses; a store that holds
  the id of the record.
\<close>

definition entry1 :: entry where
  "entry1 = \<lparr>e_title = Some ''A'', e_author = Some ''X'', e_published = Some ''2022'',
     e_link = Some ''https://music.163.com/album?id=123456789'',
     e_summary = Some (''<img src='' @ [CHR 0x22] @ ''https://p1.music.126.net/abc.jpg'' @ [CHR 0x22] @ ''>'')\<rparr>"

definition item1 :: item where
  "item1 = \<lparr>title = ''A'', author = ''X'', published = ''2022'',
     link = ''https://music.163.com/album?id=123456789'', album_id = ''123456789'',
     cover = ''https://p1.music.126.net/abc.jpg''\<rparr>"

definition env_down :: env where
  "env_down = \<lparr>CHAT_ID = ''42'', TG_TOKEN = ''T'',
     CONFIGS = [(''a'', ''1''), (''b'', ''2'')],
     http_get = (\<lambda>tr url. FetchRaises),
     tg_post = (\<lambda>tr target params. TgAck True),
     redis_up = (\<lambda>tr. True)\<rparr>"

definition env_up :: env where
  "env_up = \<lparr>CHAT_ID = ''42'', TG_TOKEN = ''T'',
     CONFIGS = [(''a'', ''1'')],
     http_get = (\<lambda>tr url. FetchFeed [entry1]),
     tg_post = (\<lambda>tr target params. TgAck True),
     redis_up = (\<lambda>tr. True)\<rparr>"

definition store1 :: "string \<rightharpoonup> string \<times> nat" where
  "store1 = [''123456789'' \<mapsto> (''sent'', 64281600)]"

definition env_nack :: env where
  "env_nack = env_up\<lparr>tg_post := (\<lambda>tr target params. TgAck False)\<rparr>"

section \<open>Escaping\<close>

lemma replace_Nil: "replace old new [] = []"
  by (simp add: replace_def)

lemma replace_Cons: "replace old new (c # cs) = (if c = old then new else [c]) @ replace old new cs"
  by (simp add: replace_def)

lemma replace_append: "replace old new (xs @ ys) = replace old new xs @ replace old new ys"
  by (simp add: replace_def)

lemma foldl_replace_append:
  "foldl (\<lambda>t e. replace e [backslash, e] t) (xs @ ys) es =
   foldl (\<lambda>t e. replace e [backslash, e] t) xs es @ foldl (\<lambda>t e. replace e [backslash, e] t) ys es"
  by (induction es arbitrary: xs ys) (simp_all add: replace_append)

lemma escape_append: "escape (xs @ ys) = escape xs @ escape ys"
  by (simp add: escape_def foldl_replace_append)

lemma escape_Nil: "escape [] = []"
  by (simp add: escape_def escape_chars_def replace_Nil)

lemma backslash_not_reserved: "backslash \<notin> set escape_chars"
  by (simp add: backslash_def escape_chars_def)

lemma foldl_replace_single_notin:
  "c \<notin> set es \<Longrightarrow> foldl (\<lambda>t e. replace e [backslash, e] t) [c] es = [c]"
  by (induction es) (auto simp: replace_Cons replace_Nil)

lemma foldl_replace_escaped:
  "c \<notin> set es \<Longrightarrow> backslash \<notin> set es \<Longrightarrow>
   foldl (\<lambda>t e. replace e [backslash, e] t) [backslash, c] es = [backslash, c]"
  by (induction es) (auto simp: replace_Cons replace_Nil)

lemma foldl_replace_single:
  "distinct es \<Longrightarrow> backslash \<notin> set es \<Longrightarrow>
   foldl (\<lambda>t e. replace e [backslash, e] t) [c] es = (if c \<in> set es then [backslash, c] else [c])"
proof (induction es)
  case Nil
  then show ?case by simp
next
  case (Cons e es)
  then show ?case
    by (auto simp: replace_Cons replace_Nil foldl_replace_escaped)
qed

lemma distinct_escape_chars: "distinct escape_chars"
  by (simp add: escape_chars_def)

lemma escape_single: "escape [c] = esc1 c"
  unfolding escape_def esc1_def
  by (rule foldl_replace_single [OF distinct_escape_chars backslash_not_reserved])

lemma escape_Cons: "escape (c # cs) = esc1 c @ escape cs"
  using escape_append [of "[c]" cs] by (simp add: escape_single)

lemma escape_concat: "escape s = concat (map esc1 s)"
  by (induction s) (simp_all add: escape_Nil escape_Cons)

lemma unescape_escape: "unescape (escape s) = s"
proof (induction s)
  case Nil
  then show ?case by (simp add: escape_Nil)
next
  case (Cons c cs)
  show ?case
  proof (cases "c \<in> set escape_chars")
    case True
    then show ?thesis using Cons by (simp add: escape_Cons esc1_def)
  next
    case False
    show ?thesis
    proof (cases cs)
      case Nil
      then show ?thesis using False by (simp add: escape_Cons esc1_def escape_Nil)
    next
      case (Cons d ds)
      have "escape cs = esc1 d @ escape ds" using Cons by (simp add: escape_Cons)
      then obtain h t where ht: "escape cs = h # t" "h \<notin> set escape_chars"
        using backslash_not_reserved by (cases "d \<in> set escape_chars") (auto simp: esc1_def)
      then show ?thesis using False Cons.IH by (simp add: escape_Cons esc1_def)
    qed
  qed
qed

lemma all_escaped_escape: "all_escaped (escape s)"
proof (induction s)
  case Nil
  then show ?case by (simp add: escape_Nil)
next
  case (Cons c cs)
  show ?case
  proof (cases "c \<in> set escape_chars")
    case True
    then show ?thesis using Cons backslash_not_reserved by (simp add: escape_Cons esc1_def)
  next
    case False
    show ?thesis
    proof (cases "escape cs")
      case Nil
      then show ?thesis using False by (simp add: escape_Cons esc1_def)
    next
      case (Cons h t)
      have "h \<notin> set escape_chars"
      proof (cases cs)
        case Nil
        then show ?thesis using Cons by (simp add: escape_Nil)
      next
        case (Cons d ds)
        then have "escape cs = esc1 d @ escape ds" by (simp add: escape_Cons)
        then show ?thesis using \<open>escape cs = h # t\<close> backslash_not_reserved
          by (cases "d \<in> set escape_chars") (auto simp: esc1_def)
      qed
      then show ?thesis using False Cons Cons.IH by (simp add: escape_Cons esc1_def)
    qed
  qed
qed

text \<open>
  C7: escape puts a backslash before every occurrence of every reserved character and
  changes nothing else; in its output every reserved character stands right after a
  backslash; and dropping one backslash before each reserved character gives the input
  back. (The backslash itself is not reserved, so a backslash of the input is kept as it
  is.)
\<close>

theorem escape_prefixes_and_roundtrips:
  "escape s = concat (map esc1 s) \<and> all_escaped (escape s) \<and> unescape (escape s) = s"
  by (simp add: escape_concat [symmetric] all_escaped_escape unescape_escape)

section \<open>The extractor\<close>

lemma takeWhile_digits_prefix:
  "list_all is_digit ds \<Longrightarrow> length ds \<le> length (takeWhile is_digit (ds @ suf))"
  by (induction ds) simp_all

lemma search_digits_found:
  "list_all is_digit ds \<Longrightarrow> length ds = 4 \<Longrightarrow> search_digits (pre @ ds @ suf) \<noteq> None"
proof (induction pre)
  case Nil
  then obtain d ds' where ds: "ds = d # ds'" by (cases ds) auto
  have "4 \<le> length (takeWhile is_digit (ds @ suf))"
    using takeWhile_digits_prefix [OF Nil(1), of suf] Nil(2) by simp
  then show ?case using ds by (simp add: Let_def)
next
  case (Cons p pre)
  then show ?case by (simp add: Let_def)
qed

lemma search_digits_Some_pattern: "search_digits s = Some m \<Longrightarrow> has_id_pattern s"
proof (induction s)
  case Nil
  then show ?case by simp
next
  case (Cons c cs)
  let ?run = "takeWhile is_digit (c # cs)"
  show ?case
  proof (cases "4 \<le> length ?run")
    case True
    have s: "c # cs = [] @ take 4 ?run @ (drop 4 ?run @ dropWhile is_digit (c # cs))"
      by (metis append_Nil append_assoc append_take_drop_id takeWhile_dropWhile_id)
    have "list_all is_digit (take 4 ?run)"
      by (metis in_set_takeD list_all_iff set_takeWhileD)
    moreover have "length (take 4 ?run) = 4" using True by simp
    ultimately show ?thesis unfolding has_id_pattern_def using s by blast
  next
    case False
    then have "search_digits cs = Some m" using Cons.prems by (simp add: Let_def)
    then have "has_id_pattern cs" by (rule Cons.IH)
    then obtain pre ds suf where "cs = pre @ ds @ suf" "length ds = 4" "list_all is_digit ds"
      unfolding has_id_pattern_def by blast
    then have "c # cs = (c # pre) @ ds @ suf \<and> length ds = 4 \<and> list_all is_digit ds" by simp
    then show ?thesis unfolding has_id_pattern_def by blast
  qed
qed

lemma search_digits_iff: "search_digits s \<noteq> None \<longleftrightarrow> has_id_pattern s"
  using search_digits_Some_pattern search_digits_found
  unfolding has_id_pattern_def by blast

lemma match_prefix_length: "match_prefix ps s \<Longrightarrow> length ps \<le> length s"
  by (induction ps s rule: match_prefix.induct) simp_all

lemma cover_prefix_length: "length cover_prefix = 25"
  by (simp add: cover_prefix_def)

lemma match_cover_here_iff: "match_cover_here s \<noteq> None \<longleftrightarrow> match_prefix cover_prefix s"
  by (simp add: match_cover_here_def)

lemma match_cover_here_length: "match_cover_here s = Some m \<Longrightarrow> 25 \<le> length m"
  using match_prefix_length [of cover_prefix s]
  by (auto simp: match_cover_here_def cover_prefix_length split: if_splits)

lemma search_cover_length: "search_cover s = Some m \<Longrightarrow> 25 \<le> length m"
  by (induction s) (auto dest: match_cover_here_length split: option.splits)

lemma search_cover_found:
  "match_prefix cover_prefix suf \<Longrightarrow> search_cover (pre @ suf) \<noteq> None"
proof (induction pre)
  case Nil
  then obtain m where "match_cover_here suf = Some m"
    using match_cover_here_iff [of suf] by auto
  then show ?case by (cases suf) simp_all
next
  case (Cons p pre)
  then show ?case by (auto split: option.splits)
qed

lemma search_cover_Some_pattern: "search_cover s = Some m \<Longrightarrow> has_cover_pattern s"
proof (induction s)
  case Nil
  then have "match_prefix cover_prefix []" using match_cover_here_iff [of "[]"] by simp
  then show ?case unfolding has_cover_pattern_def by (metis append_Nil)
next
  case (Cons c cs)
  show ?case
  proof (cases "match_cover_here (c # cs)")
    case None
    then have "has_cover_pattern cs" using Cons by simp
    then obtain pre suf where "cs = pre @ suf" "match_prefix cover_prefix suf"
      unfolding has_cover_pattern_def by blast
    then have "c # cs = (c # pre) @ suf \<and> match_prefix cover_prefix suf" by simp
    then show ?thesis unfolding has_cover_pattern_def by blast
  next
    case (Some a)
    then have "match_prefix cover_prefix (c # cs)" using match_cover_here_iff [of "c # cs"] by simp
    then show ?thesis unfolding has_cover_pattern_def by (metis append_Nil)
  qed
qed

lemma search_cover_iff: "search_cover s \<noteq> None \<longleftrightarrow> has_cover_pattern s"
  using search_cover_Some_pattern search_cover_found
  unfolding has_cover_pattern_def by blast

lemma search_digits_None: "search_digits s = None \<longleftrightarrow> \<not> has_id_pattern s"
  using search_digits_iff [of s] by (cases "search_digits s") auto

lemma search_cover_None: "search_cover s = None \<longleftrightarrow> \<not> has_cover_pattern s"
  using search_cover_iff [of s] by (cases "search_cover s") auto

lemma parse_entry_well_formed:
  "well_formed e \<Longrightarrow> fst (parse_entry e w) = Inr (record_of e)"
  by (auto simp: well_formed_def parse_entry_def get_field_def group_def record_of_def Let_def
      search_digits_None search_cover_None split: option.splits)

lemma parse_entry_malformed:
  "\<not> well_formed e \<Longrightarrow> \<exists>err. fst (parse_entry e w) = Inl err"
  by (auto simp: well_formed_def parse_entry_def get_field_def group_def Let_def
      search_digits_None search_cover_None
      dest: search_digits_Some_pattern search_cover_Some_pattern split: option.splits)

lemma parse_loop_items:
  "fst (parse_loop es items w) = items @ map record_of (filter well_formed es)"
proof (induction es arbitrary: items w)
  case Nil
  then show ?case by simp
next
  case (Cons e es)
  show ?case
  proof (cases "well_formed e")
    case True
    then show ?thesis
      using parse_entry_well_formed [OF True, of w] Cons.IH
      by (cases "parse_entry e w") simp
  next
    case False
    then show ?thesis
      using parse_entry_malformed [OF False, of w] Cons.IH
      by (cases "parse_entry e w") auto
  qed
qed

lemma parse_items: "fst (parse es w) = map record_of (filter well_formed es)"
  by (simp add: parse_def split_beta Let_def parse_loop_items)

lemma parse_trace:
  "trace (snd (parse es w)) =
   trace (snd (parse_loop es [] (log LParsing w))) @
   [Log (LParseEnd (length (fst (parse es w))) (length es))]"
  by (simp add: parse_def split_beta Let_def log_def emit_def)

lemma skipped_count:
  "length es - length (filter P es) = length (filter (\<lambda>e. \<not> P e) es)"
  using sum_length_filter_compl [of P es] by simp

lemma parse_cover_length: "it \<in> set (fst (parse es w)) \<Longrightarrow> 25 \<le> length (cover it)"
proof -
  assume "it \<in> set (fst (parse es w))"
  then obtain e where e: "well_formed e" "it = record_of e" by (auto simp: parse_items)
  then obtain s where s: "e_summary e = Some s" "has_cover_pattern s"
    by (auto simp: well_formed_def split: option.splits)
  then obtain m where "search_cover s = Some m" using search_cover_iff [of s] by auto
  then show ?thesis using e s search_cover_length [of s m] by (simp add: record_of_def)
qed

lemma parse_entry1: "fst (parse [entry1, entry1\<lparr>e_author := None\<rparr>] w) = [item1]"
  by (simp add: parse_def parse_entry_def entry1_def item1_def get_field_def group_def
      match_cover_here_def cover_prefix_def pat_ok_def cover_tail_def is_space_def is_digit_def
      Let_def split_beta)

lemma well_formed_entry1: "well_formed entry1"
  using parse_entry_malformed [of entry1 "start Map.empty"]
  by (auto simp: parse_entry_def entry1_def item1_def get_field_def group_def
      match_cover_here_def cover_prefix_def pat_ok_def cover_tail_def is_space_def is_digit_def
      Let_def split_beta)

lemma malformed_entry1: "\<not> well_formed (entry1\<lparr>e_author := None\<rparr>)"
  by (simp add: well_formed_def)

text \<open>
  C5: of a feed with N entries, parse returns exactly the records of the K entries that
  have the four fields, a link with the id pattern and a summary with the cover pattern,
  in their order; its closing log line reports K accepted of N, so N - K skipped. parse is
  a total function whose result is a list: the error of an entry never leaves its loop.
\<close>

theorem parse_yields_well_formed_entries:
  "fst (parse es w) = map record_of (filter well_formed es) \<and>
   length (fst (parse es w)) = length (filter well_formed es) \<and>
   last (trace (snd (parse es w))) = Log (LParseEnd (length (filter well_formed es)) (length es)) \<and>
   length es - length (filter well_formed es) = length (filter (\<lambda>e. \<not> well_formed e) es)"
  by (simp add: parse_items parse_trace skipped_count)

theorem parse_yields_well_formed_entries_witness:
  "fst (parse [entry1, entry1\<lparr>e_author := None\<rparr>] (start Map.empty)) = [item1] \<and>
   last (trace (snd (parse [entry1, entry1\<lparr>e_author := None\<rparr>] (start Map.empty)))) =
     Log (LParseEnd 1 2)"
  using parse_yields_well_formed_entries [of "[entry1, entry1\<lparr>e_author := None\<rparr>]" "start Map.empty"]
    well_formed_entry1 malformed_entry1 parse_entry1 [of "start Map.empty"]
  by simp

lemma send_photo_posts:
  "filter is_post (added w (snd (send_photo env chat photo caption it (log m w)))) =
   [TgPost (''https://api.telegram.org/bot'' @ TG_TOKEN env @ ''/sendPhoto'')
      [(''chat_id'', chat), (''photo'', photo), (''caption'', caption)]]"
  by (simp add: send_photo_def post_def log_def emit_def added_def is_post_def Let_def
      split: tg_outcome.splits bool.splits)

text \<open>
  C10: every record that parse returns has a non-empty cover (at least the 25 characters
  of the host prefix), so send takes its photo branch for it: its one request goes to the
  sendPhoto endpoint, never to sendMessage.
\<close>

theorem parsed_items_take_photo_branch:
  assumes "it \<in> set (fst (parse es w))"
  shows "cover it \<noteq> [] \<and> fst (construct_params it) = cover it \<and>
    send env chat (cover it) caption it w' =
      send_photo env chat (cover it) caption it (log (LSendAlbum (title it) (album_id it)) w') \<and>
    filter is_post (added w' (snd (send env chat (cover it) caption it w'))) =
      [TgPost (''https://api.telegram.org/bot'' @ TG_TOKEN env @ ''/sendPhoto'')
         [(''chat_id'', chat), (''photo'', cover it), (''caption'', caption)]]"
proof -
  have ne: "cover it \<noteq> []" using parse_cover_length [OF assms] by auto
  then have "send env chat (cover it) caption it w' =
      send_photo env chat (cover it) caption it (log (LSendAlbum (title it) (album_id it)) w')"
    by (simp add: send_def Let_def)
  then show ?thesis using ne by (simp add: construct_params_def send_photo_posts)
qed

theorem parsed_items_take_photo_branch_witness:
  "item1 \<in> set (fst (parse [entry1, entry1\<lparr>e_author := None\<rparr>] (start Map.empty))) \<and>
   cover item1 \<noteq> [] \<and>
   filter is_post (added (start Map.empty)
       (snd (send env_down ''42'' (cover item1) ''c'' item1 (start Map.empty)))) =
     [TgPost ''https://api.telegram.org/botT/sendPhoto''
        [(''chat_id'', ''42''), (''photo'', ''https://p1.music.126.net/abc.jpg''), (''caption'', ''c'')]]"
proof -
  have m: "item1 \<in> set (fst (parse [entry1, entry1\<lparr>e_author := None\<rparr>] (start Map.empty)))"
    by (simp add: parse_entry1)
  have c: "cover item1 = ''https://p1.music.126.net/abc.jpg''" by (simp add: item1_def)
  have t: "TG_TOKEN env_down = ''T''" by (simp add: env_down_def)
  note th = parsed_items_take_photo_branch [OF m, of env_down "''42''" "''c''" "start Map.empty"]
  have n: "cover item1 \<noteq> []" using th by (rule conjunct1)
  have p: "filter is_post (added (start Map.empty)
       (snd (send env_down ''42'' (cover item1) ''c'' item1 (start Map.empty)))) =
     [TgPost (''https://api.telegram.org/bot'' @ TG_TOKEN env_down @ ''/sendPhoto'')
        [(''chat_id'', ''42''), (''photo'', cover item1), (''caption'', ''c'')]]"
    using th by (rule conjunct2 [OF conjunct2 [OF conjunct2]])
  show ?thesis using m n p by (simp add: c t)
qed

section \<open>Traces and steps\<close>

lemma trace_emit [simp]: "trace (emit ev w) = trace w @ [ev]"
  by (simp add: emit_def)

lemma store_emit [simp]: "store (emit ev w) = store w"
  by (simp add: emit_def)

lemma trace_log [simp]: "trace (log m w) = trace w @ [Log m]"
  by (simp add: log_def)

lemma store_log [simp]: "store (log m w) = store w"
  by (simp add: log_def)

lemma trace_sleep [simp]: "trace (sleep n w) = trace w @ [Sleep n]"
  by (simp add: sleep_def)

lemma store_sleep [simp]: "store (sleep n w) = store w"
  by (simp add: sleep_def)

lemma added_append [simp]: "trace w' = trace w @ evs \<Longrightarrow> added w w' = evs"
  by (simp add: added_def)

lemma answers_append:
  "answers env pre (xs @ ys) = answers env pre xs @ answers env (pre @ xs) ys"
  by (induction xs arbitrary: pre) (simp_all split: event.splits)

lemma answers_length: "length (answers env pre evs) = length (filter is_get evs)"
  by (induction evs arbitrary: pre) (simp_all add: is_get_def split: event.splits)

lemma download_loop_spec:
  "\<exists>evs. trace (snd (download_loop env url rs w)) = trace w @ evs \<and>
     store (snd (download_loop env url rs w)) = store w \<and>
     filter is_post evs = [] \<and> filter is_write evs = [] \<and>
     (case fst (download_loop env url rs w) of
        None \<Rightarrow> length (answers env (trace w) evs) = length rs \<and>
                 list_all not_feed (answers env (trace w) evs)
      | Some es \<Rightarrow> length (answers env (trace w) evs) \<le> length rs \<and>
                 list_all not_feed (butlast (answers env (trace w) evs)) \<and>
                 answers env (trace w) evs \<noteq> [] \<and>
                 last (answers env (trace w) evs) = FetchFeed es)"
proof (induction rs arbitrary: w)
  case Nil
  then show ?case by simp
next
  case (Cons r rs)
  let ?w0 = "log (LFetchAttempt (r + 1)) w"
  let ?w1 = "emit (HttpGet url) ?w0"
  show ?case
  proof (cases "http_get env (trace ?w0) url")
    case FetchRaises
    let ?w2 = "sleep 6 (log LFetchFailed ?w1)"
    from Cons.IH [of ?w2] obtain evs where evs:
      "trace (snd (download_loop env url rs ?w2)) = trace ?w2 @ evs"
      "store (snd (download_loop env url rs ?w2)) = store ?w2"
      "filter is_post evs = []" "filter is_write evs = []"
      "(case fst (download_loop env url rs ?w2) of
        None \<Rightarrow> length (answers env (trace ?w2) evs) = length rs \<and>
                 list_all not_feed (answers env (trace ?w2) evs)
      | Some es \<Rightarrow> length (answers env (trace ?w2) evs) \<le> length rs \<and>
                 list_all not_feed (butlast (answers env (trace ?w2) evs)) \<and>
                 answers env (trace ?w2) evs \<noteq> [] \<and>
                 last (answers env (trace ?w2) evs) = FetchFeed es)"
      by blast
    have eq: "download_loop env url (r # rs) w = download_loop env url rs ?w2"
      using FetchRaises by (simp add: fetch_def)
    let ?E = "[Log (LFetchAttempt (r + 1)), HttpGet url, Log LFetchFailed, Sleep 6] @ evs"
    have a: "answers env (trace w) ?E = FetchRaises # answers env (trace ?w2) evs"
      using FetchRaises by simp
    have "trace (snd (download_loop env url (r # rs) w)) = trace w @ ?E"
      using evs(1) eq by simp
    moreover have "store (snd (download_loop env url (r # rs) w)) = store w"
      using evs(2) eq by simp
    moreover have "filter is_post ?E = []" "filter is_write ?E = []"
      using evs(3,4) by (simp_all add: is_post_def is_write_def)
    moreover have "(case fst (download_loop env url (r # rs) w) of
        None \<Rightarrow> length (answers env (trace w) ?E) = length (r # rs) \<and>
                 list_all not_feed (answers env (trace w) ?E)
      | Some es \<Rightarrow> length (answers env (trace w) ?E) \<le> length (r # rs) \<and>
                 list_all not_feed (butlast (answers env (trace w) ?E)) \<and>
                 answers env (trace w) ?E \<noteq> [] \<and>
                 last (answers env (trace w) ?E) = FetchFeed es)"
      using evs(5) unfolding eq a by (auto simp: not_feed_def split: option.splits)
    ultimately show ?thesis by blast
  next
    case FetchEmpty
    let ?w2 = "?w1"
    from Cons.IH [of ?w2] obtain evs where evs:
      "trace (snd (download_loop env url rs ?w2)) = trace ?w2 @ evs"
      "store (snd (download_loop env url rs ?w2)) = store ?w2"
      "filter is_post evs = []" "filter is_write evs = []"
      "(case fst (download_loop env url rs ?w2) of
        None \<Rightarrow> length (answers env (trace ?w2) evs) = length rs \<and>
                 list_all not_feed (answers env (trace ?w2) evs)
      | Some es \<Rightarrow> length (answers env (trace ?w2) evs) \<le> length rs \<and>
                 list_all not_feed (butlast (answers env (trace ?w2) evs)) \<and>
                 answers env (trace ?w2) evs \<noteq> [] \<and>
                 last (answers env (trace ?w2) evs) = FetchFeed es)"
      by blast
    have eq: "download_loop env url (r # rs) w = download_loop env url rs ?w2"
      using FetchEmpty by (simp add: fetch_def)
    let ?E = "[Log (LFetchAttempt (r + 1)), HttpGet url] @ evs"
    have a: "answers env (trace w) ?E = FetchEmpty # answers env (trace ?w2) evs"
      using FetchEmpty by simp
    have "trace (snd (download_loop env url (r # rs) w)) = trace w @ ?E"
      using evs(1) eq by simp
    moreover have "store (snd (download_loop env url (r # rs) w)) = store w"
      using evs(2) eq by simp
    moreover have "filter is_post ?E = []" "filter is_write ?E = []"
      using evs(3,4) by (simp_all add: is_post_def is_write_def)
    moreover have "(case fst (download_loop env url (r # rs) w) of
        None \<Rightarrow> length (answers env (trace w) ?E) = length (r # rs) \<and>
                 list_all not_feed (answers env (trace w) ?E)
      | Some es \<Rightarrow> length (answers env (trace w) ?E) \<le> length (r # rs) \<and>
                 list_all not_feed (butlast (answers env (trace w) ?E)) \<and>
                 answers env (trace w) ?E \<noteq> [] \<and>
                 last (answers env (trace w) ?E) = FetchFeed es)"
      using evs(5) unfolding eq a by (auto simp: not_feed_def split: option.splits)
    ultimately show ?thesis by blast
  next
    case (FetchFeed es)
    let ?E = "[Log (LFetchAttempt (r + 1)), HttpGet url]"
    have eq: "download_loop env url (r # rs) w = (Some es, ?w1)"
      using FetchFeed by (simp add: fetch_def)
    have a: "answers env (trace w) ?E = [FetchFeed es]"
      using FetchFeed by simp
    have "trace (snd (download_loop env url (r # rs) w)) = trace w @ ?E"
      using eq by simp
    moreover have "store (snd (download_loop env url (r # rs) w)) = store w"
      using eq by simp
    moreover have "filter is_post ?E = []" "filter is_write ?E = []"
      by (simp_all add: is_post_def is_write_def)
    moreover have "(case fst (download_loop env url (r # rs) w) of
        None \<Rightarrow> length (answers env (trace w) ?E) = length (r # rs) \<and>
                 list_all not_feed (answers env (trace w) ?E)
      | Some es \<Rightarrow> length (answers env (trace w) ?E) \<le> length (r # rs) \<and>
                 list_all not_feed (butlast (answers env (trace w) ?E)) \<and>
                 answers env (trace w) ?E \<noteq> [] \<and>
                 last (answers env (trace w) ?E) = FetchFeed es)"
      unfolding eq a by simp
    ultimately show ?thesis by blast
  qed
qed

section \<open>The retry loops\<close>

lemma upt_3: "[0..<3] = [0, 1, 2]"
  by (simp add: upt_rec)

lemma upt_5: "[0..<5] = [0, 1, 2, 3, 4]"
  by (simp add: upt_rec)

lemma download_spec:
  "\<exists>evs. trace (snd (download env url w)) = trace w @ evs \<and>
     store (snd (download env url w)) = store w \<and>
     filter is_post evs = [] \<and> filter is_write evs = [] \<and>
     length (answers env (trace w) evs) \<le> 3 \<and>
     (case fst (download env url w) of
        Inl err \<Rightarrow> err = DownloadFailed \<and> length (answers env (trace w) evs) = 3 \<and>
                   list_all not_feed (answers env (trace w) evs)
      | Inr es \<Rightarrow> list_all not_feed (butlast (answers env (trace w) evs)) \<and>
                   answers env (trace w) evs \<noteq> [] \<and>
                   last (answers env (trace w) evs) = FetchFeed es)"
proof -
  let ?w0 = "log LDownloading w"
  from download_loop_spec [of env url "[0..<3]" ?w0] obtain evs where evs:
    "trace (snd (download_loop env url [0..<3] ?w0)) = trace ?w0 @ evs"
    "store (snd (download_loop env url [0..<3] ?w0)) = store ?w0"
    "filter is_post evs = []" "filter is_write evs = []"
    "(case fst (download_loop env url [0..<3] ?w0) of
        None \<Rightarrow> length (answers env (trace ?w0) evs) = length [0..<3] \<and>
                 list_all not_feed (answers env (trace ?w0) evs)
      | Some es \<Rightarrow> length (answers env (trace ?w0) evs) \<le> length [0..<3] \<and>
                 list_all not_feed (butlast (answers env (trace ?w0) evs)) \<and>
                 answers env (trace ?w0) evs \<noteq> [] \<and>
                 last (answers env (trace ?w0) evs) = FetchFeed es)"
    by blast
  show ?thesis
  proof (cases "fst (download_loop env url [0..<3] ?w0)")
    case None
    let ?E = "[Log LDownloading] @ evs"
    have d: "download env url w = (Inl DownloadFailed, snd (download_loop env url [0..<3] ?w0))"
      using None by (auto simp: download_def split: prod.splits)
    have a: "answers env (trace w) ?E = answers env (trace ?w0) evs" by simp
    have "trace (snd (download env url w)) = trace w @ ?E" using evs(1) d by simp
    moreover have "store (snd (download env url w)) = store w" using evs(2) d by simp
    moreover have "filter is_post ?E = []" "filter is_write ?E = []"
      using evs(3,4) by (simp_all add: is_post_def is_write_def)
    moreover have "length (answers env (trace w) ?E) \<le> 3"
      using evs(5) None unfolding a by simp
    moreover have "(case fst (download env url w) of
        Inl err \<Rightarrow> err = DownloadFailed \<and> length (answers env (trace w) ?E) = 3 \<and>
                   list_all not_feed (answers env (trace w) ?E)
      | Inr es \<Rightarrow> list_all not_feed (butlast (answers env (trace w) ?E)) \<and>
                   answers env (trace w) ?E \<noteq> [] \<and>
                   last (answers env (trace w) ?E) = FetchFeed es)"
      using evs(5) None unfolding a d by simp
    ultimately show ?thesis by blast
  next
    case (Some es)
    let ?E = "[Log LDownloading] @ evs @ [Log LFetchSucceed]"
    have d: "download env url w =
        (Inr es, log LFetchSucceed (snd (download_loop env url [0..<3] ?w0)))"
      using Some by (auto simp: download_def split: prod.splits)
    have a: "answers env (trace w) ?E = answers env (trace ?w0) evs"
      by (simp add: answers_append)
    have "trace (snd (download env url w)) = trace w @ ?E" using evs(1) d by simp
    moreover have "store (snd (download env url w)) = store w" using evs(2) d by simp
    moreover have "filter is_post ?E = []" "filter is_write ?E = []"
      using evs(3,4) by (simp_all add: is_post_def is_write_def)
    moreover have "length (answers env (trace w) ?E) \<le> 3"
      using evs(5) Some unfolding a by simp
    moreover have "(case fst (download env url w) of
        Inl err \<Rightarrow> err = DownloadFailed \<and> length (answers env (trace w) ?E) = 3 \<and>
                   list_all not_feed (answers env (trace w) ?E)
      | Inr es \<Rightarrow> list_all not_feed (butlast (answers env (trace w) ?E)) \<and>
                   answers env (trace w) ?E \<noteq> [] \<and>
                   last (answers env (trace w) ?E) = FetchFeed es)"
      using evs(5) Some unfolding a d by simp
    ultimately show ?thesis by blast
  qed
qed

lemma rj_code_unbound: "lookup_global env ''rj_code'' = Inl (NameError ''rj_code'')"
  by (simp add: lookup_global_def)

lemma rss_author_unbound: "chat_target env = Inl (NameError ''rss_author'')"
  by (simp add: chat_target_def lookup_global_def)

lemma redis_set_loop_exact:
  "redis_set_loop env aid rs w =
   (False, w\<lparr>trace := trace w @ commit_events rs @ [Log (LRedisGaveUp aid)]\<rparr>)"
proof (induction rs arbitrary: w)
  case Nil
  then show ?case by (simp add: commit_events_def log_def emit_def)
next
  case (Cons r rs)
  then show ?case
    by (simp add: rj_code_unbound commit_events_def log_def sleep_def emit_def Let_def)
qed

lemma redis_set_exact:
  "redis_set env aid w =
   (False, w\<lparr>trace := trace w @ commit_events [0..<5] @ [Log (LRedisGaveUp aid)]\<rparr>)"
  by (simp add: redis_set_def redis_set_loop_exact)

lemma commit_events_attempts: "length (filter is_commit_attempt (commit_events rs)) = length rs"
  by (induction rs) (simp_all add: commit_events_def is_commit_attempt_def)

lemma commit_events_writes: "filter is_write (commit_events rs) = []"
  by (induction rs) (simp_all add: commit_events_def is_write_def)

lemma commit_events_posts: "filter is_post (commit_events rs) = []"
  by (induction rs) (simp_all add: commit_events_def is_post_def)

lemma redis_set_added:
  "added w (snd (redis_set env aid w)) = commit_events [0..<5] @ [Log (LRedisGaveUp aid)]"
  by (simp add: redis_set_exact added_def)

text \<open>
  C6: download issues at most three requests; it raises, and then its failure error, only
  when it has issued three and none was answered with a truthy feed; when it returns a
  feed, that is the answer to its last request. redis_set makes at most five attempts (and
  at most five writes), and has made five when it returns false.
\<close>

theorem retry_bounds:
  "length (filter is_get (added w (snd (download env url w)))) \<le> 3 \<and>
   (case fst (download env url w) of
      Inl err \<Rightarrow> err = DownloadFailed \<and>
        length (answers env (trace w) (added w (snd (download env url w)))) = 3 \<and>
        list_all not_feed (answers env (trace w) (added w (snd (download env url w))))
    | Inr es \<Rightarrow>
        answers env (trace w) (added w (snd (download env url w))) \<noteq> [] \<and>
        last (answers env (trace w) (added w (snd (download env url w)))) = FetchFeed es) \<and>
   length (filter is_commit_attempt (added w (snd (redis_set env aid w)))) \<le> 5 \<and>
   length (filter is_write (added w (snd (redis_set env aid w)))) \<le> 5 \<and>
   (fst (redis_set env aid w) \<or>
    length (filter is_commit_attempt (added w (snd (redis_set env aid w)))) = 5)"
proof -
  from download_spec [of env url w] obtain evs where evs:
    "trace (snd (download env url w)) = trace w @ evs"
    "length (answers env (trace w) evs) \<le> 3"
    "(case fst (download env url w) of
        Inl err \<Rightarrow> err = DownloadFailed \<and> length (answers env (trace w) evs) = 3 \<and>
                   list_all not_feed (answers env (trace w) evs)
      | Inr es \<Rightarrow> list_all not_feed (butlast (answers env (trace w) evs)) \<and>
                   answers env (trace w) evs \<noteq> [] \<and>
                   last (answers env (trace w) evs) = FetchFeed es)"
    by blast
  have ad: "added w (snd (download env url w)) = evs" using evs(1) by simp
  have g: "length (filter is_get (added w (snd (download env url w)))) \<le> 3"
    using evs(2) by (simp add: ad answers_length)
  have c: "(case fst (download env url w) of
      Inl err \<Rightarrow> err = DownloadFailed \<and>
        length (answers env (trace w) (added w (snd (download env url w)))) = 3 \<and>
        list_all not_feed (answers env (trace w) (added w (snd (download env url w))))
    | Inr es \<Rightarrow>
        answers env (trace w) (added w (snd (download env url w))) \<noteq> [] \<and>
        last (answers env (trace w) (added w (snd (download env url w)))) = FetchFeed es)"
    using evs(3) unfolding ad by (simp split: sum.splits)
  have r: "length (filter is_commit_attempt (added w (snd (redis_set env aid w)))) = 5"
    by (simp add: redis_set_added commit_events_attempts is_commit_attempt_def)
  have wr: "filter is_write (added w (snd (redis_set env aid w))) = []"
    by (simp add: redis_set_added commit_events_writes is_write_def)
  show ?thesis using g c r wr by simp
qed

section \<open>What a pass can do\<close>

lemma step_ok_refl: "step_ok w w"
  by (simp add: step_ok_def)

lemma step_ok_trans: "step_ok w w1 \<Longrightarrow> step_ok w1 w2 \<Longrightarrow> step_ok w w2"
  by (auto simp: step_ok_def)

lemma step_ok_emit: "plain ev \<Longrightarrow> step_ok w (emit ev w)"
  by (simp add: step_ok_def)

lemma plain_log:
  "plain (Log m) \<longleftrightarrow>
   (case m of LRedisAttempt n \<Rightarrow> False | LSendAlbum t i \<Rightarrow> False
    | LFilteredCount k n \<Rightarrow> k = 0 | _ \<Rightarrow> True)"
  by (simp add: plain_def silent_def survivor_log_def split: log_msg.splits)

lemma step_ok_log: "plain (Log m) \<Longrightarrow> step_ok w (log m w)"
  by (simp add: log_def step_ok_emit)

lemma step_ok_sleep: "step_ok w (sleep n w)"
  by (simp add: sleep_def step_ok_emit plain_def silent_def survivor_log_def)

lemma plain_event:
  assumes "plain ev"
  shows "\<not> is_post ev \<and> \<not> is_write ev \<and> \<not> is_commit_attempt ev \<and> \<not> is_send_call ev \<and>
    \<not> survivor_log ev"
proof (cases ev)
  case (Log m)
  then show ?thesis
    using assms
    by (cases m)
      (simp_all add: plain_def silent_def survivor_log_def is_post_def is_write_def
        is_commit_attempt_def is_send_call_def)
qed (use assms in \<open>simp_all add: plain_def silent_def survivor_log_def is_post_def is_write_def
    is_commit_attempt_def is_send_call_def\<close>)

lemma plain_filter_empty:
  "list_all plain evs \<Longrightarrow> (\<And>ev. plain ev \<Longrightarrow> \<not> P ev) \<Longrightarrow> filter P evs = []"
  by (induction evs) auto

lemma plain_filters:
  assumes "list_all plain evs"
  shows "filter is_post evs = [] \<and> filter is_write evs = [] \<and>
    filter is_commit_attempt evs = [] \<and> filter is_send_call evs = [] \<and> \<not> survivors evs"
proof -
  have "filter survivor_log evs = []"
    using assms by (rule plain_filter_empty) (simp add: plain_event)
  then have "\<not> survivors evs"
    by (simp add: survivors_def list_ex_iff filter_empty_conv)
  moreover have "filter is_post evs = []"
    using assms by (rule plain_filter_empty) (simp add: plain_event)
  moreover have "filter is_write evs = []"
    using assms by (rule plain_filter_empty) (simp add: plain_event)
  moreover have "filter is_commit_attempt evs = []"
    using assms by (rule plain_filter_empty) (simp add: plain_event)
  moreover have "filter is_send_call evs = []"
    using assms by (rule plain_filter_empty) (simp add: plain_event)
  ultimately show ?thesis by simp
qed

lemma download_loop_step: "step_ok w (snd (download_loop env url rs w))"
proof (induction rs arbitrary: w)
  case Nil
  then show ?case by (simp add: step_ok_refl)
next
  case (Cons r rs)
  let ?w0 = "log (LFetchAttempt (r + 1)) w"
  let ?w1 = "emit (HttpGet url) ?w0"
  have s1: "step_ok w ?w1"
    by (intro step_ok_trans [OF step_ok_log step_ok_emit])
      (simp_all add: plain_log, simp add: plain_def silent_def survivor_log_def)
  show ?case
  proof (cases "http_get env (trace ?w0) url")
    case FetchRaises
    let ?w2 = "sleep 6 (log LFetchFailed ?w1)"
    have "step_ok ?w1 ?w2"
      by (intro step_ok_trans [OF step_ok_log step_ok_sleep]) (simp add: plain_log)
    then have "step_ok w (snd (download_loop env url rs ?w2))"
      using s1 Cons.IH [of ?w2] step_ok_trans by blast
    then show ?thesis using FetchRaises by (simp add: fetch_def)
  next
    case FetchEmpty
    have "step_ok w (snd (download_loop env url rs ?w1))"
      using s1 Cons.IH [of ?w1] step_ok_trans by blast
    then show ?thesis using FetchEmpty by (simp add: fetch_def)
  next
    case (FetchFeed es)
    then show ?thesis using s1 by (simp add: fetch_def)
  qed
qed

lemma download_step: "step_ok w (snd (download env url w))"
proof -
  let ?w0 = "log LDownloading w"
  have a: "step_ok w (snd (download_loop env url [0..<3] ?w0))"
    using step_ok_trans [OF step_ok_log download_loop_step] by (simp add: plain_log)
  show ?thesis
  proof (cases "fst (download_loop env url [0..<3] ?w0)")
    case None
    then show ?thesis using a by (auto simp: download_def split: prod.splits)
  next
    case (Some es)
    have "step_ok w (log LFetchSucceed (snd (download_loop env url [0..<3] ?w0)))"
      using step_ok_trans [OF a step_ok_log] by (simp add: plain_log)
    then show ?thesis using Some by (auto simp: download_def split: prod.splits)
  qed
qed

lemma download_error: "fst (download env url w) = Inl err \<Longrightarrow> err = DownloadFailed"
  by (auto simp: download_def split: prod.splits option.splits)

lemma answers_served: "a \<in> set (answers env pre evs) \<Longrightarrow> \<exists>tr url. a = http_get env tr url"
  by (induction evs arbitrary: pre) (auto split: event.splits)

lemma download_served:
  assumes "fst (download env url w) = Inr es"
  shows "\<exists>tr u. http_get env tr u = FetchFeed es"
proof -
  from download_spec [of env url w] assms obtain evs where
    "answers env (trace w) evs \<noteq> []" "last (answers env (trace w) evs) = FetchFeed es"
    by auto
  then have "FetchFeed es \<in> set (answers env (trace w) evs)" using last_in_set by metis
  then show ?thesis using answers_served by metis
qed

lemma parse_entry_step: "step_ok w (snd (parse_entry e w))"
  by (auto simp: parse_entry_def get_field_def group_def Let_def step_ok_refl step_ok_log plain_log
      split: option.splits)

lemma parse_loop_step: "step_ok w (snd (parse_loop es items w))"
proof (induction es arbitrary: items w)
  case Nil
  then show ?case by (simp add: step_ok_refl)
next
  case (Cons e es)
  obtain r w1 where p: "parse_entry e w = (r, w1)" by (cases "parse_entry e w")
  then have s1: "step_ok w w1" using parse_entry_step [of w e] by simp
  show ?case
  proof (cases r)
    case (Inl err)
    have "step_ok w (log (LEntryException err) w1)"
      using step_ok_trans [OF s1 step_ok_log] by (simp add: plain_log)
    then show ?thesis using p Inl Cons.IH step_ok_trans by fastforce
  next
    case (Inr it)
    then show ?thesis using p s1 Cons.IH step_ok_trans by fastforce
  qed
qed

lemma parse_step: "step_ok w (snd (parse es w))"
proof -
  have "step_ok w (snd (parse_loop es [] (log LParsing w)))"
    using step_ok_trans [OF step_ok_log parse_loop_step] by (simp add: plain_log)
  then have "step_ok w (log (LParseEnd (length (fst (parse es w))) (length es))
      (snd (parse_loop es [] (log LParsing w))))"
    using step_ok_trans [OF _ step_ok_log] by (simp add: plain_log)
  then show ?thesis by (simp add: parse_def split_beta Let_def)
qed

lemma filter_item_exact:
  "filter_item env it w =
   (if redis_up env (trace w) then Inr (store w (album_id it) \<noteq> None) else Inl RedisError,
    emit (RedisExists (album_id it)) w)"
  by (simp add: filter_item_def redis_exists_def Let_def)

lemma filter_items_spec:
  "step_ok w (snd (filter_items env its w)) \<and>
   (case fst (filter_items env its w) of
      Inl err \<Rightarrow> err = RedisError
    | Inr kept \<Rightarrow> kept = filter (\<lambda>it. store w (album_id it) = None) its)"
proof (induction its arbitrary: w)
  case Nil
  then show ?case by (simp add: step_ok_refl)
next
  case (Cons it its)
  let ?w1 = "emit (RedisExists (album_id it)) w"
  have s1: "step_ok w ?w1"
    by (rule step_ok_emit) (simp add: plain_def silent_def survivor_log_def)
  show ?case
  proof (cases "redis_up env (trace w)")
    case False
    then show ?thesis using s1 by (simp add: filter_item_exact)
  next
    case True
    have st: "store ?w1 = store w" by simp
    from Cons.IH [of ?w1, unfolded st] have ih:
      "step_ok ?w1 (snd (filter_items env its ?w1))"
      "(case fst (filter_items env its ?w1) of
          Inl err \<Rightarrow> err = RedisError
        | Inr kept \<Rightarrow> kept = filter (\<lambda>it. store w (album_id it) = None) its)"
      by simp_all
    have s2: "step_ok w (snd (filter_items env its ?w1))"
      using step_ok_trans [OF s1 ih(1)] .
    obtain r w2 where f: "filter_items env its ?w1 = (r, w2)" by (cases "filter_items env its ?w1")
    show ?thesis
      using True f s2 ih(2) by (cases r) (auto simp: filter_item_exact)
  qed
qed

lemma send_loop_exact:
  "send_loop env its w = (if its = [] then Inr () else Inl (NameError ''rss_author''), w)"
  by (cases its) (simp_all add: rss_author_unbound)

lemma pass_ok_plain:
  "step_ok w w' \<Longrightarrow> r = Inr () \<or> r = Inl DownloadFailed \<or> r = Inl RedisError \<Longrightarrow> pass_ok w (r, w')"
  by (auto simp: pass_ok_def step_ok_def)

lemma pass_ok_step: "step_ok w w1 \<Longrightarrow> pass_ok w1 r \<Longrightarrow> pass_ok w r"
proof -
  assume a: "step_ok w w1" and b: "pass_ok w1 r"
  from a obtain e1 where e1: "store w1 = store w" "trace w1 = trace w @ e1" "list_all plain e1"
    by (auto simp: step_ok_def)
  from b have st: "store (snd r) = store w" using e1(1) by (simp add: pass_ok_def)
  from b consider
    (name) evs k m where "fst r = Inl (NameError ''rss_author'')"
      "trace (snd r) = trace w1 @ evs @ [Log (LFilteredCount k m)]" "0 < k" "list_all plain evs"
    | (other) "fst r = Inr () \<or> fst r = Inl DownloadFailed \<or> fst r = Inl RedisError"
      "step_ok w1 (snd r)"
    by (auto simp: pass_ok_def)
  then show ?thesis
  proof cases
    case name
    then have "trace (snd r) = trace w @ (e1 @ evs) @ [Log (LFilteredCount k m)]"
      "list_all plain (e1 @ evs)"
      using e1 by simp_all
    then show ?thesis using name(1,3) st unfolding pass_ok_def by blast
  next
    case other
    then show ?thesis using step_ok_trans [OF a other(2)] st by (simp add: pass_ok_def)
  qed
qed

lemma process_source_pass: "pass_ok w (process_source env src w)"
proof -
  obtain artist_name rss_url where src: "src = (artist_name, rss_url)" by (cases src)
  let ?w0 = "log (LArtist artist_name rss_url) w"
  obtain d w1 where d: "download env rss_url ?w0 = (d, w1)" by (cases "download env rss_url ?w0")
  have s1: "step_ok w w1"
    using step_ok_trans [OF step_ok_log download_step [of ?w0 env rss_url]] d
    by (simp add: plain_log)
  show ?thesis
  proof (cases d)
    case (Inl err)
    then have "err = DownloadFailed" using download_error [of env rss_url ?w0 err] d by simp
    then show ?thesis using src d Inl s1 by (simp add: process_source_def pass_ok_plain)
  next
    case (Inr rss_json)
    obtain items w2 where p: "parse rss_json w1 = (items, w2)" by (cases "parse rss_json w1")
    have s2: "step_ok w w2" using step_ok_trans [OF s1 parse_step [of w1 rss_json]] p by simp
    obtain f w3 where f: "filter_items env items w2 = (f, w3)"
      by (cases "filter_items env items w2")
    have s3: "step_ok w w3"
      using step_ok_trans [OF s2] filter_items_spec [of w2 env items] f by simp
    show ?thesis
    proof (cases f)
      case (Inl err)
      then have "err = RedisError" using filter_items_spec [of w2 env items] f by simp
      then show ?thesis using src d Inr p f Inl s3 by (simp add: process_source_def pass_ok_plain)
    next
      case kept: (Inr filtered_items)
      let ?k = "length filtered_items"
      let ?w4 = "log (LFilteredCount ?k (length items)) w3"
      have r: "process_source env src w =
          (if filtered_items = [] then Inr () else Inl (NameError ''rss_author''), ?w4)"
        using src d Inr p f kept by (simp add: process_source_def send_loop_exact)
      show ?thesis
      proof (cases "filtered_items = []")
        case True
        have "step_ok w ?w4" using step_ok_trans [OF s3 step_ok_log] True by (simp add: plain_log)
        then show ?thesis using r True by (simp add: pass_ok_plain)
      next
        case False
        from s3 obtain evs where "store w3 = store w" "trace w3 = trace w @ evs" "list_all plain evs"
          by (auto simp: step_ok_def)
        then have "store ?w4 = store w"
          "trace ?w4 = trace w @ evs @ [Log (LFilteredCount ?k (length items))]"
          "0 < ?k" "list_all plain evs"
          using False by simp_all
        then show ?thesis using r False unfolding pass_ok_def by fastforce
      qed
    qed
  qed
qed

lemma main_loop_pass: "pass_ok w (main_loop env srcs w)"
proof (induction srcs arbitrary: w)
  case Nil
  then show ?case by (simp add: pass_ok_plain step_ok_refl)
next
  case (Cons src srcs)
  obtain r w1 where p: "process_source env src w = (r, w1)" by (cases "process_source env src w")
  have ok: "pass_ok w (r, w1)" using process_source_pass [of w env src] p by simp
  show ?case
  proof (cases r)
    case (Inl err)
    then show ?thesis using p ok by simp
  next
    case (Inr u)
    then have "step_ok w w1" using ok by (simp add: pass_ok_def)
    then show ?thesis using p Inr pass_ok_step [OF _ Cons.IH [of w1]] by simp
  qed
qed

lemma main_pass: "pass_ok w (main env w)"
proof -
  let ?w0 = "log LAppStart w"
  obtain r w1 where m: "main_loop env (rss_url_generator env) ?w0 = (r, w1)"
    by (cases "main_loop env (rss_url_generator env) ?w0")
  have s0: "step_ok w ?w0" by (rule step_ok_log) (simp add: plain_log)
  have ok: "pass_ok w (r, w1)"
    using pass_ok_step [OF s0 main_loop_pass [of ?w0 env "rss_url_generator env"]] m by simp
  show ?thesis
  proof (cases r)
    case (Inl err)
    then show ?thesis using m ok by (simp add: main_def)
  next
    case (Inr u)
    then have "step_ok w w1" using ok by (simp add: pass_ok_def)
    then have "step_ok w (log LAppEnd w1)"
      using step_ok_trans [OF _ step_ok_log] by (simp add: plain_log)
    then show ?thesis using m Inr by (simp add: main_def pass_ok_plain)
  qed
qed

lemma pass_ok_facts:
  assumes "pass_ok w r"
  shows "store (snd r) = store w"
    and "filter is_post (added w (snd r)) = []"
    and "filter is_write (added w (snd r)) = []"
    and "filter is_commit_attempt (added w (snd r)) = []"
    and "filter is_send_call (added w (snd r)) = []"
    and "survivors (added w (snd r)) \<longleftrightarrow> fst r = Inl (NameError ''rss_author'')"
    and "fst r = Inr () \<or> fst r = Inl DownloadFailed \<or> fst r = Inl RedisError \<or>
         fst r = Inl (NameError ''rss_author'')"
proof -
  from assms consider
    (name) evs k m where "fst r = Inl (NameError ''rss_author'')"
      "trace (snd r) = trace w @ evs @ [Log (LFilteredCount k m)]" "0 < k" "list_all plain evs"
    | (other) evs where "fst r = Inr () \<or> fst r = Inl DownloadFailed \<or> fst r = Inl RedisError"
      "trace (snd r) = trace w @ evs" "list_all plain evs"
    by (auto simp: pass_ok_def step_ok_def)
  then have "filter is_post (added w (snd r)) = [] \<and>
    filter is_write (added w (snd r)) = [] \<and>
    filter is_commit_attempt (added w (snd r)) = [] \<and>
    filter is_send_call (added w (snd r)) = [] \<and>
    (survivors (added w (snd r)) \<longleftrightarrow> fst r = Inl (NameError ''rss_author'')) \<and>
    (fst r = Inr () \<or> fst r = Inl DownloadFailed \<or> fst r = Inl RedisError \<or>
         fst r = Inl (NameError ''rss_author''))"
  proof cases
    case name
    have ad: "added w (snd r) = evs @ [Log (LFilteredCount k m)]" using name(2) by simp
    show ?thesis
      using plain_filters [OF name(4)] name(1,3) unfolding ad
      by (simp add: is_post_def is_write_def is_commit_attempt_def is_send_call_def
          survivors_def survivor_log_def)
  next
    case other
    have ad: "added w (snd r) = evs" using other(2) by simp
    show ?thesis using plain_filters [OF other(3)] other(1) unfolding ad by auto
  qed
  then show "filter is_post (added w (snd r)) = []"
    and "filter is_write (added w (snd r)) = []"
    and "filter is_commit_attempt (added w (snd r)) = []"
    and "filter is_send_call (added w (snd r)) = []"
    and "survivors (added w (snd r)) \<longleftrightarrow> fst r = Inl (NameError ''rss_author'')"
    and "fst r = Inr () \<or> fst r = Inl DownloadFailed \<or> fst r = Inl RedisError \<or>
         fst r = Inl (NameError ''rss_author'')"
    by blast+
  show "store (snd r) = store w" using assms by (simp add: pass_ok_def)
qed

section \<open>The pass on concrete inputs\<close>

lemma trace_start [simp]: "trace (start st) = []"
  by (simp add: start_def)

lemma store_start [simp]: "store (start st) = st"
  by (simp add: start_def)

lemma generator_env_down:
  "rss_url_generator env_down =
     [(''a'', ''https://rsshub.app/ncm/artist/1''), (''b'', ''https://rsshub.app/ncm/artist/2'')]"
  by (simp add: rss_url_generator_def env_down_def)

lemma main_env_down:
  "main env_down (start Map.empty) =
   (Inl DownloadFailed,
    \<lparr>store = Map.empty,
     trace = [Log LAppStart, Log (LArtist ''a'' ''https://rsshub.app/ncm/artist/1''),
       Log LDownloading,
       Log (LFetchAttempt 1), HttpGet ''https://rsshub.app/ncm/artist/1'', Log LFetchFailed, Sleep 6,
       Log (LFetchAttempt 2), HttpGet ''https://rsshub.app/ncm/artist/1'', Log LFetchFailed, Sleep 6,
       Log (LFetchAttempt 3), HttpGet ''https://rsshub.app/ncm/artist/1'', Log LFetchFailed, Sleep 6]\<rparr>)"
  by (simp add: main_def rss_url_generator_def env_down_def start_def process_source_def
      download_def upt_3 fetch_def log_def sleep_def emit_def)

text \<open>
  C2, as stated, fails: with two sources configured and a feed proxy that does not answer,
  the pass ends with exit status 1 and never requests the second source.
\<close>

theorem all_sources_not_visited_counterexample:
  "exit_status (fst (main env_down (start Map.empty))) = 1 \<and>
   HttpGet ''https://rsshub.app/ncm/artist/2'' \<notin> set (trace (snd (main env_down (start Map.empty)))) \<and>
   rss_url_generator env_down =
     [(''a'', ''https://rsshub.app/ncm/artist/1''), (''b'', ''https://rsshub.app/ncm/artist/2'')]"
  by (simp add: main_env_down exit_status_def generator_env_down)

text \<open>
  C3, as stated, fails in its last part: a pass in which no record survives the filter need
  not complete normally. When the feed proxy does not answer, no survivor count is logged
  and the pass ends with the download error.
\<close>

theorem no_survivor_yet_aborted_counterexample:
  "\<not> survivors (added (start Map.empty) (snd (main env_down (start Map.empty)))) \<and>
   fst (main env_down (start Map.empty)) = Inl DownloadFailed"
  by (simp add: main_env_down added_def survivors_def survivor_log_def)

text \<open>
  C3, amended: a pass ends with the NameError of the unbound name rss_author exactly when
  a positive number of surviving records was logged; no chat request is made and send is
  never called in any pass; and a pass ends in one of four ways: normally, with that
  NameError, with the download error, or with a store error. So a pass without surviving
  records completes normally unless a download or a store lookup fails.
\<close>

theorem name_error_iff_survivors:
  "(fst (main env w) = Inl (NameError ''rss_author'')) = survivors (added w (snd (main env w))) \<and>
   filter is_post (added w (snd (main env w))) = [] \<and>
   filter is_send_call (added w (snd (main env w))) = [] \<and>
   (fst (main env w) = Inr () \<or> fst (main env w) = Inl DownloadFailed \<or>
    fst (main env w) = Inl RedisError \<or> fst (main env w) = Inl (NameError ''rss_author''))"
  using pass_ok_facts [OF main_pass [of w env]] by simp

lemma download_loop_gets:
  "\<exists>n. filter is_get (added w (snd (download_loop env url rs w))) = replicate n (HttpGet url)"
proof (induction rs arbitrary: w)
  case Nil
  then show ?case by (simp add: added_def)
next
  case (Cons r rs)
  let ?w0 = "log (LFetchAttempt (r + 1)) w"
  let ?w1 = "emit (HttpGet url) ?w0"
  have ext: "\<And>wa wb. step_ok wa wb \<Longrightarrow> \<exists>evs. trace wb = trace wa @ evs"
    by (auto simp: step_ok_def)
  show ?case
  proof (cases "http_get env (trace ?w0) url")
    case FetchRaises
    let ?w2 = "sleep 6 (log LFetchFailed ?w1)"
    obtain evs where evs: "trace (snd (download_loop env url rs ?w2)) = trace ?w2 @ evs"
      using ext [OF download_loop_step] by blast
    obtain n where "filter is_get (added ?w2 (snd (download_loop env url rs ?w2))) = replicate n (HttpGet url)"
      using Cons.IH by blast
    then have n: "filter is_get evs = replicate n (HttpGet url)" using evs by simp
    have "trace (snd (download_loop env url (r # rs) w)) =
        trace w @ [Log (LFetchAttempt (r + 1)), HttpGet url, Log LFetchFailed, Sleep 6] @ evs"
      using FetchRaises evs by (simp add: fetch_def)
    then have "filter is_get (added w (snd (download_loop env url (r # rs) w))) =
        replicate (Suc n) (HttpGet url)"
      using n by (simp add: is_get_def)
    then show ?thesis by blast
  next
    case FetchEmpty
    obtain evs where evs: "trace (snd (download_loop env url rs ?w1)) = trace ?w1 @ evs"
      using ext [OF download_loop_step] by blast
    obtain n where "filter is_get (added ?w1 (snd (download_loop env url rs ?w1))) = replicate n (HttpGet url)"
      using Cons.IH by blast
    then have n: "filter is_get evs = replicate n (HttpGet url)" using evs by simp
    have "trace (snd (download_loop env url (r # rs) w)) =
        trace w @ [Log (LFetchAttempt (r + 1)), HttpGet url] @ evs"
      using FetchEmpty evs by (simp add: fetch_def)
    then have "filter is_get (added w (snd (download_loop env url (r # rs) w))) =
        replicate (Suc n) (HttpGet url)"
      using n by (simp add: is_get_def)
    then show ?thesis by blast
  next
    case (FetchFeed es)
    then have "filter is_get (added w (snd (download_loop env url (r # rs) w))) =
        replicate (Suc 0) (HttpGet url)"
      by (simp add: fetch_def added_def is_get_def)
    then show ?thesis by blast
  qed
qed

lemma download_failed_gets:
  assumes "fst (download env url w) = Inl err"
  shows "filter is_get (added w (snd (download env url w))) = replicate 3 (HttpGet url)"
proof -
  let ?w0 = "log LDownloading w"
  let ?w1 = "snd (download_loop env url [0..<3] ?w0)"
  have d: "snd (download env url w) = ?w1"
    using assms by (auto simp: download_def split: prod.splits option.splits)
  obtain evs where evs: "trace ?w1 = trace ?w0 @ evs"
    using download_loop_step [of ?w0 env url "[0..<3]"] by (auto simp: step_ok_def)
  obtain n where "filter is_get (added ?w0 ?w1) = replicate n (HttpGet url)"
    using download_loop_gets by blast
  then have n: "filter is_get evs = replicate n (HttpGet url)" using evs by simp
  have ad: "added w (snd (download env url w)) = [Log LDownloading] @ evs"
    using d evs by simp
  have g: "filter is_get (added w (snd (download env url w))) = replicate n (HttpGet url)"
    unfolding ad using n by (simp add: is_get_def)
  from download_spec [of env url w] assms obtain evs' where
    "trace (snd (download env url w)) = trace w @ evs'" "length (answers env (trace w) evs') = 3"
    by auto
  then have "length (answers env (trace w) (added w (snd (download env url w)))) = 3" by simp
  then have "n = 3" using g by (simp add: answers_length)
  then show ?thesis using g by simp
qed

lemma main_loop_append:
  "main_loop env (pre @ rest) w =
   (case main_loop env pre w of (Inl err, w1) \<Rightarrow> (Inl err, w1) | (Inr u, w1) \<Rightarrow> main_loop env rest w1)"
  by (induction pre arbitrary: w) (auto split: prod.splits sum.splits)

text \<open>
  C2, amended: when the download of a source fails (its three requests exhausted), main does
  not catch the error: the pass ends there with the download error and exit status 1, and
  after the sources before it nothing but the three requests of the failed source is
  fetched.
\<close>

theorem failed_download_ends_pass:
  assumes "rss_url_generator env = pre @ (name, url) # rest"
    and "main_loop env pre (log LAppStart w) = (Inr (), w1)"
    and "fst (download env url (log (LArtist name url) w1)) = Inl err"
  shows "main env w = (Inl DownloadFailed, snd (download env url (log (LArtist name url) w1))) \<and>
    exit_status (fst (main env w)) = 1 \<and>
    filter is_get (added w1 (snd (main env w))) = replicate 3 (HttpGet url)"
proof -
  let ?w2 = "log (LArtist name url) w1"
  have e: "err = DownloadFailed" using download_error [OF assms(3)] .
  have p: "process_source env (name, url) w1 = (Inl DownloadFailed, snd (download env url ?w2))"
    using assms(3) e by (cases "download env url ?w2") (simp add: process_source_def)
  have m: "main env w = (Inl DownloadFailed, snd (download env url ?w2))"
    using assms(1,2) p by (simp add: main_def main_loop_append)
  obtain evs where evs: "trace (snd (download env url ?w2)) = trace ?w2 @ evs"
    using download_step [of ?w2 env url] by (auto simp: step_ok_def)
  have "filter is_get (added ?w2 (snd (download env url ?w2))) = replicate 3 (HttpGet url)"
    using download_failed_gets [OF assms(3)] .
  then have "filter is_get evs = replicate 3 (HttpGet url)" using evs by simp
  moreover have "added w1 (snd (main env w)) = [Log (LArtist name url)] @ evs"
    using m evs by simp
  ultimately have "filter is_get (added w1 (snd (main env w))) = replicate 3 (HttpGet url)"
    by (simp add: is_get_def)
  then show ?thesis using m by (simp add: exit_status_def)
qed

theorem failed_download_ends_pass_witness:
  "main env_down (start Map.empty) =
     (Inl DownloadFailed,
      snd (download env_down ''https://rsshub.app/ncm/artist/1''
        (log (LArtist ''a'' ''https://rsshub.app/ncm/artist/1'') (log LAppStart (start Map.empty))))) \<and>
   exit_status (fst (main env_down (start Map.empty))) = 1 \<and>
   filter is_get (added (log LAppStart (start Map.empty)) (snd (main env_down (start Map.empty)))) =
     replicate 3 (HttpGet ''https://rsshub.app/ncm/artist/1'')"
proof -
  let ?u = "''https://rsshub.app/ncm/artist/1''"
  let ?w1 = "log LAppStart (start Map.empty)"
  have g: "rss_url_generator env_down = [] @ (''a'', ?u) # [(''b'', ''https://rsshub.app/ncm/artist/2'')]"
    by (simp add: generator_env_down)
  have l: "main_loop env_down [] ?w1 = (Inr (), ?w1)" by simp
  have d: "fst (download env_down ?u (log (LArtist ''a'' ?u) ?w1)) = Inl DownloadFailed"
    by (simp add: download_def upt_3 fetch_def env_down_def)
  show ?thesis using failed_download_ends_pass [OF g l d] .
qed

lemma process_source_known:
  assumes known: "\<And>tr url es it. http_get env tr url = FetchFeed es \<Longrightarrow>
      it \<in> set (map record_of (filter well_formed es)) \<Longrightarrow> st (album_id it) \<noteq> None"
    and st: "store w = st"
  shows "fst (process_source env src w) \<noteq> Inl (NameError ''rss_author'')"
proof -
  obtain artist_name rss_url where src: "src = (artist_name, rss_url)" by (cases src)
  let ?w0 = "log (LArtist artist_name rss_url) w"
  obtain d w1 where d: "download env rss_url ?w0 = (d, w1)" by (cases "download env rss_url ?w0")
  show ?thesis
  proof (cases d)
    case (Inl err)
    then have "err = DownloadFailed" using download_error [of env rss_url ?w0 err] d by simp
    then show ?thesis using src d Inl by (simp add: process_source_def)
  next
    case (Inr rss_json)
    then obtain tr u where served: "http_get env tr u = FetchFeed rss_json"
      using download_served [of env rss_url ?w0 rss_json] d by auto
    have s1: "store w1 = st" using download_step [of ?w0 env rss_url] d st by (simp add: step_ok_def)
    obtain items w2 where p: "parse rss_json w1 = (items, w2)" by (cases "parse rss_json w1")
    have items: "items = map record_of (filter well_formed rss_json)"
      using parse_items [of rss_json w1] p by simp
    have s2: "store w2 = st" using parse_step [of w1 rss_json] p s1 by (simp add: step_ok_def)
    obtain f w3 where f: "filter_items env items w2 = (f, w3)"
      by (cases "filter_items env items w2")
    show ?thesis
    proof (cases f)
      case (Inl err)
      then have "err = RedisError" using filter_items_spec [of w2 env items] f by simp
      then show ?thesis using src d Inr p f Inl by (simp add: process_source_def)
    next
      case kept: (Inr filtered_items)
      then have "filtered_items = filter (\<lambda>it. st (album_id it) = None) items"
        using filter_items_spec [of w2 env items] f s2 by simp
      moreover have "\<And>it. it \<in> set items \<Longrightarrow> st (album_id it) \<noteq> None"
        using known [OF served] items by blast
      ultimately have "filtered_items = []" by (simp add: filter_empty_conv)
      then show ?thesis using src d Inr p f kept by (simp add: process_source_def)
    qed
  qed
qed

lemma main_loop_known:
  assumes known: "\<And>tr url es it. http_get env tr url = FetchFeed es \<Longrightarrow>
      it \<in> set (map record_of (filter well_formed es)) \<Longrightarrow> st (album_id it) \<noteq> None"
  shows "store w = st \<Longrightarrow> fst (main_loop env srcs w) \<noteq> Inl (NameError ''rss_author'')"
proof (induction srcs arbitrary: w)
  case Nil
  then show ?case by simp
next
  case (Cons src srcs)
  obtain r w1 where p: "process_source env src w = (r, w1)" by (cases "process_source env src w")
  have "fst (process_source env src w) \<noteq> Inl (NameError ''rss_author'')"
  proof (rule process_source_known [where st = st])
    show "store w = st" by fact
  next
    fix tr url es it
    assume "http_get env tr url = FetchFeed es" "it \<in> set (map record_of (filter well_formed es))"
    then show "st (album_id it) \<noteq> None" by (rule known)
  qed
  then have n: "r \<noteq> Inl (NameError ''rss_author'')" using p by simp
  have "store w1 = st"
    using pass_ok_facts(1) [OF process_source_pass [of w env src]] p Cons.prems by simp
  then show ?case using p n Cons.IH [of w1] by (cases r) simp_all
qed

text \<open>
  C4: when the store holds an entry for the id of every record of every feed the sources
  can serve, a pass makes no chat request and never calls send: the filter leaves no
  record (every survivor count logged is zero), so the send loop is not entered.
\<close>

theorem known_ids_deliver_nothing:
  assumes "\<And>tr url es it. http_get env tr url = FetchFeed es \<Longrightarrow>
      it \<in> set (fst (parse es w)) \<Longrightarrow> store w (album_id it) \<noteq> None"
  shows "filter is_post (added w (snd (main env w))) = [] \<and>
    filter is_send_call (added w (snd (main env w))) = [] \<and>
    \<not> survivors (added w (snd (main env w))) \<and>
    fst (main env w) \<noteq> Inl (NameError ''rss_author'')"
proof -
  have known: "\<And>tr url es it. http_get env tr url = FetchFeed es \<Longrightarrow>
      it \<in> set (map record_of (filter well_formed es)) \<Longrightarrow> store w (album_id it) \<noteq> None"
    using assms by (simp add: parse_items)
  have "fst (main_loop env (rss_url_generator env) (log LAppStart w)) \<noteq> Inl (NameError ''rss_author'')"
  proof (rule main_loop_known [where st = "store w"])
    show "store (log LAppStart w) = store w" by simp
  next
    fix tr url es it
    assume "http_get env tr url = FetchFeed es" "it \<in> set (map record_of (filter well_formed es))"
    then show "store w (album_id it) \<noteq> None" by (rule known)
  qed
  then have n: "fst (main env w) \<noteq> Inl (NameError ''rss_author'')"
    by (auto simp: main_def split: prod.splits sum.splits)
  show ?thesis using pass_ok_facts [OF main_pass [of w env]] n by simp
qed

lemma parse_single: "fst (parse [entry1] w) = [item1]"
  by (simp add: parse_def parse_entry_def entry1_def item1_def get_field_def group_def
      match_cover_here_def cover_prefix_def pat_ok_def cover_tail_def is_space_def is_digit_def
      Let_def split_beta)

theorem known_ids_deliver_nothing_witness:
  "filter is_post (added (start store1) (snd (main env_up (start store1)))) = [] \<and>
   filter is_send_call (added (start store1) (snd (main env_up (start store1)))) = [] \<and>
   \<not> survivors (added (start store1) (snd (main env_up (start store1)))) \<and>
   fst (main env_up (start store1)) \<noteq> Inl (NameError ''rss_author'')"
proof -
  have "\<And>tr url es it. http_get env_up tr url = FetchFeed es \<Longrightarrow>
      it \<in> set (fst (parse es (start store1))) \<Longrightarrow> store (start store1) (album_id it) \<noteq> None"
  proof -
    fix tr url es it
    assume "http_get env_up tr url = FetchFeed es" and it: "it \<in> set (fst (parse es (start store1)))"
    then have "es = [entry1]" by (simp add: env_up_def)
    then have "it = item1" using it by (simp add: parse_single)
    then show "store (start store1) (album_id it) \<noteq> None" by (simp add: item1_def store1_def)
  qed
  then show ?thesis by (rule known_ids_deliver_nothing)
qed

section \<open>Filter, delivery and commit\<close>

text \<open>
  C8: filter answers with what the lookup of the record's album id in the store answers
  (true exactly when the store holds an entry, an error when the store client raises);
  filtering a list leaves the store as it was and writes nothing, and returns the records
  without an entry, unchanged and in their order.
\<close>

theorem filter_reads_only:
  "filter_item env it w = redis_exists env (album_id it) w \<and>
   fst (redis_exists env (album_id it) w) =
     (if redis_up env (trace w) then Inr (store w (album_id it) \<noteq> None) else Inl RedisError) \<and>
   store (snd (filter_items env its w)) = store w \<and>
   filter is_write (added w (snd (filter_items env its w))) = [] \<and>
   (case fst (filter_items env its w) of
      Inl err \<Rightarrow> err = RedisError
    | Inr kept \<Rightarrow> kept = filter (\<lambda>it. store w (album_id it) = None) its)"
proof -
  have a: "filter_item env it w = redis_exists env (album_id it) w"
    by (simp add: filter_item_def redis_exists_def Let_def)
  have b: "fst (redis_exists env (album_id it) w) =
     (if redis_up env (trace w) then Inr (store w (album_id it) \<noteq> None) else Inl RedisError)"
    by (simp add: redis_exists_def Let_def)
  from filter_items_spec [of w env its] obtain evs where
    c: "store (snd (filter_items env its w)) = store w"
    and evs: "trace (snd (filter_items env its w)) = trace w @ evs" "list_all plain evs"
    and d: "(case fst (filter_items env its w) of
      Inl err \<Rightarrow> err = RedisError
    | Inr kept \<Rightarrow> kept = filter (\<lambda>it. store w (album_id it) = None) its)"
    by (auto simp: step_ok_def)
  have e: "filter is_write (added w (snd (filter_items env its w))) = []"
    using plain_filters [OF evs(2)] evs(1) by simp
  show ?thesis using a b c d e by simp
qed

theorem filter_reads_only_witness:
  "fst (filter_items env_up [item1, item1\<lparr>album_id := ''5555''\<rparr>] (start store1)) =
     Inr [item1\<lparr>album_id := ''5555''\<rparr>] \<and>
   store (snd (filter_items env_up [item1, item1\<lparr>album_id := ''5555''\<rparr>] (start store1))) = store1"
proof -
  have u: "\<And>tr. redis_up env_up tr" by (simp add: env_up_def)
  have f: "fst (filter_items env_up [item1, item1\<lparr>album_id := ''5555''\<rparr>] (start store1)) =
     Inr [item1\<lparr>album_id := ''5555''\<rparr>]"
    by (simp add: filter_item_exact u store1_def item1_def)
  note th = filter_reads_only [of env_up item1 "start store1" "[item1, item1\<lparr>album_id := ''5555''\<rparr>]"]
  have "store (snd (filter_items env_up [item1, item1\<lparr>album_id := ''5555''\<rparr>] (start store1))) =
      store (start store1)"
    using th by (rule conjunct1 [OF conjunct2 [OF conjunct2]])
  then have st: "store (snd (filter_items env_up [item1, item1\<lparr>album_id := ''5555''\<rparr>] (start store1))) =
      store1"
    by (simp only: store_start)
  from f st show ?thesis by (rule conjI)
qed

lemma post_outcome:
  "post env target params w = (out, w1) \<Longrightarrow> w1 = emit (TgPost target params) w"
  by (simp add: post_def)

lemma send_photo_spec:
  "store (snd (send_photo env chat photo cap it w)) = store w \<and>
   (\<exists>evs. trace (snd (send_photo env chat photo cap it w)) = trace w @ evs \<and>
     filter is_commit_attempt evs = [] \<and> filter is_write evs = [])"
proof -
  let ?target = "''https://api.telegram.org/bot'' @ TG_TOKEN env @ ''/sendPhoto''"
  let ?params = "[(''chat_id'', chat), (''photo'', photo), (''caption'', cap)]"
  obtain out w1 where p: "post env ?target ?params w = (out, w1)"
    by (cases "post env ?target ?params w")
  have w1: "w1 = emit (TgPost ?target ?params) w" using post_outcome [OF p] .
  show ?thesis
  proof (cases out)
    case TgRaises
    then show ?thesis
      using p w1 by (simp add: send_photo_def Let_def is_commit_attempt_def is_write_def)
  next
    case (TgAck ok)
    then show ?thesis
      using p w1
      by (cases ok) (simp_all add: send_photo_def Let_def is_commit_attempt_def is_write_def)
  qed
qed

lemma send_message_spec:
  "store (snd (send_message env chat cap it w)) = store w \<and>
   (\<exists>evs. trace (snd (send_message env chat cap it w)) = trace w @ evs \<and>
     filter is_commit_attempt evs = [] \<and> filter is_write evs = [])"
proof -
  let ?target = "''https://api.telegram.org/bot'' @ TG_TOKEN env @ ''/sendMessage''"
  let ?params = "[(''chat_id'', chat), (''parse_mode'', ''MarkdownV2''), (''text'', cap)]"
  obtain out w1 where p: "post env ?target ?params w = (out, w1)"
    by (cases "post env ?target ?params w")
  have w1: "w1 = emit (TgPost ?target ?params) w" using post_outcome [OF p] .
  show ?thesis
  proof (cases out)
    case TgRaises
    then show ?thesis
      using p w1 by (simp add: send_message_def Let_def is_commit_attempt_def is_write_def)
  next
    case (TgAck ok)
    then show ?thesis
      using p w1
      by (cases ok) (simp_all add: send_message_def Let_def is_commit_attempt_def is_write_def)
  qed
qed

lemma send_spec:
  "store (snd (send env chat photo cap it w)) = store w \<and>
   filter is_commit_attempt (added w (snd (send env chat photo cap it w))) = [] \<and>
   filter is_write (added w (snd (send env chat photo cap it w))) = [] \<and>
   (\<exists>evs. trace (snd (send env chat photo cap it w)) = trace w @ evs)"
proof -
  let ?w0 = "log (LSendAlbum (title it) (album_id it)) w"
  have "store (snd (send env chat photo cap it w)) = store w \<and>
   (\<exists>evs. trace (snd (send env chat photo cap it w)) = trace w @ evs \<and>
     filter is_commit_attempt evs = [] \<and> filter is_write evs = [])"
  proof (cases "photo \<noteq> []")
    case True
    from send_photo_spec [of env chat photo cap it ?w0] obtain evs where
      "store (snd (send_photo env chat photo cap it ?w0)) = store w"
      "trace (snd (send_photo env chat photo cap it ?w0)) = trace ?w0 @ evs"
      "filter is_commit_attempt evs = []" "filter is_write evs = []"
      by auto
    then have "store (snd (send env chat photo cap it w)) = store w \<and>
      trace (snd (send env chat photo cap it w)) =
        trace w @ (Log (LSendAlbum (title it) (album_id it)) # evs) \<and>
      filter is_commit_attempt (Log (LSendAlbum (title it) (album_id it)) # evs) = [] \<and>
      filter is_write (Log (LSendAlbum (title it) (album_id it)) # evs) = []"
      using True by (simp add: send_def Let_def is_commit_attempt_def is_write_def)
    then show ?thesis by blast
  next
    case False
    from send_message_spec [of env chat cap it ?w0] obtain evs where
      "store (snd (send_message env chat cap it ?w0)) = store w"
      "trace (snd (send_message env chat cap it ?w0)) = trace ?w0 @ evs"
      "filter is_commit_attempt evs = []" "filter is_write evs = []"
      by auto
    then have "store (snd (send env chat photo cap it w)) = store w \<and>
      trace (snd (send env chat photo cap it w)) =
        trace w @ (Log (LSendAlbum (title it) (album_id it)) # evs) \<and>
      filter is_commit_attempt (Log (LSendAlbum (title it) (album_id it)) # evs) = [] \<and>
      filter is_write (Log (LSendAlbum (title it) (album_id it)) # evs) = []"
      using False by (simp add: send_def Let_def is_commit_attempt_def is_write_def)
    then show ?thesis by blast
  qed
  then obtain evs where e: "store (snd (send env chat photo cap it w)) = store w"
    "trace (snd (send env chat photo cap it w)) = trace w @ evs"
    "filter is_commit_attempt evs = []" "filter is_write evs = []"
    by blast
  have "added w (snd (send env chat photo cap it w)) = evs" using e(2) by simp
  then show ?thesis using e by simp
qed

lemma deliver_commit_cases:
  "deliver_commit env chat it w =
   (if fst (send env chat (cover it) (fst (snd (construct_params it))) it w)
    then sleep 10 (snd (redis_set env (album_id it)
           (snd (send env chat (cover it) (fst (snd (construct_params it))) it w))))
    else snd (send env chat (cover it) (fst (snd (construct_params it))) it w))"
  by (cases "send env chat (cover it) (fst (snd (construct_params it))) it w")
    (auto simp: deliver_commit_def construct_params_def)

text \<open>
  C9: send itself neither attempts a commit nor writes to the store. What the loop body
  adds to the trace for one record is what send added, followed by more only when send
  returned true; when send returned false the store is as before and the body has made no
  commit attempt and no write. In a whole pass no commit attempt and no write occurs and
  the store is unchanged.
\<close>

theorem commit_only_after_delivery:
  "store (snd (send env chat (cover it) (fst (snd (construct_params it))) it w)) = store w \<and>
   filter is_commit_attempt
     (added w (snd (send env chat (cover it) (fst (snd (construct_params it))) it w))) = [] \<and>
   filter is_write
     (added w (snd (send env chat (cover it) (fst (snd (construct_params it))) it w))) = [] \<and>
   (\<exists>after. added w (deliver_commit env chat it w) =
       added w (snd (send env chat (cover it) (fst (snd (construct_params it))) it w)) @ after \<and>
     (fst (send env chat (cover it) (fst (snd (construct_params it))) it w) \<or> after = [])) \<and>
   (fst (send env chat (cover it) (fst (snd (construct_params it))) it w) \<or>
    store (deliver_commit env chat it w) = store w \<and>
    filter is_commit_attempt (added w (deliver_commit env chat it w)) = [] \<and>
    filter is_write (added w (deliver_commit env chat it w)) = []) \<and>
   filter is_commit_attempt (added w (snd (main env w))) = [] \<and>
   filter is_write (added w (snd (main env w))) = [] \<and>
   store (snd (main env w)) = store w"
proof -
  let ?r = "send env chat (cover it) (fst (snd (construct_params it))) it w"
  let ?w' = "deliver_commit env chat it w"
  from send_spec [of env chat "cover it" "fst (snd (construct_params it))" it w]
  obtain evs where s: "store (snd ?r) = store w"
    "filter is_commit_attempt (added w (snd ?r)) = []"
    "filter is_write (added w (snd ?r)) = []"
    "trace (snd ?r) = trace w @ evs"
    by blast
  have ad: "added w (snd ?r) = evs" using s(4) by simp
  have ex: "\<exists>after. added w ?w' = added w (snd ?r) @ after \<and> (fst ?r \<or> after = [])"
  proof (cases "fst ?r")
    case True
    then have "trace ?w' =
        trace w @ evs @ (commit_events [0..<5] @ [Log (LRedisGaveUp (album_id it))] @ [Sleep 10])"
      using s(4) by (simp add: deliver_commit_cases redis_set_exact)
    then have "added w ?w' =
        added w (snd ?r) @ (commit_events [0..<5] @ [Log (LRedisGaveUp (album_id it))] @ [Sleep 10])"
      unfolding ad by (rule added_append)
    then show ?thesis using True by blast
  next
    case False
    then have "added w ?w' = added w (snd ?r) @ []" by (simp add: deliver_commit_cases)
    then show ?thesis by blast
  qed
  have un: "fst ?r \<or> store ?w' = store w \<and>
    filter is_commit_attempt (added w ?w') = [] \<and> filter is_write (added w ?w') = []"
    using s(1,2,3) by (simp add: deliver_commit_cases)
  have m: "filter is_commit_attempt (added w (snd (main env w))) = []"
    "filter is_write (added w (snd (main env w))) = []"
    "store (snd (main env w)) = store w"
    using pass_ok_facts [OF main_pass [of w env]] by simp_all
  show ?thesis using s(1,2,3) ex un m by simp
qed

theorem commit_only_after_delivery_witness:
  "\<not> fst (send env_nack ''42'' (cover item1) (fst (snd (construct_params item1))) item1 (start Map.empty)) \<and>
   store (deliver_commit env_nack ''42'' item1 (start Map.empty)) = Map.empty \<and>
   filter is_commit_attempt (added (start Map.empty) (deliver_commit env_nack ''42'' item1 (start Map.empty))) = [] \<and>
   filter is_write (added (start Map.empty) (deliver_commit env_nack ''42'' item1 (start Map.empty))) = []"
proof -
  have n: "\<not> fst (send env_nack ''42'' (cover item1) (fst (snd (construct_params item1))) item1 (start Map.empty))"
    by (simp add: send_def send_photo_def send_message_def post_def env_nack_def env_up_def Let_def)
  show ?thesis
    using n commit_only_after_delivery [of env_nack "''42''" item1 "start Map.empty"]
    by simp
qed

text \<open>
  C1 fails on the code: after a delivery that succeeded, redis_set returns false and the
  store holds no entry for the id of the delivered record, since the key of the write is
  the unbound name rj_code and the NameError is caught in each of the five attempts.
\<close>

theorem commit_writes_no_marker:
  "fst (send env_up ''42'' (cover item1) (fst (snd (construct_params item1))) item1 (start Map.empty)) \<and>
   \<not> fst (redis_set env_up ''123456789'' (start Map.empty)) \<and>
   store (snd (redis_set env_up ''123456789'' (start Map.empty))) ''123456789'' = None \<and>
   store (deliver_commit env_up ''42'' item1 (start Map.empty)) ''123456789'' = None \<and>
   fst (redis_exists env_up ''123456789'' (deliver_commit env_up ''42'' item1 (start Map.empty))) =
     Inr False"
proof -
  have s: "fst (send env_up ''42'' (cover item1) (fst (snd (construct_params item1))) item1 (start Map.empty))"
    by (simp add: send_def send_photo_def send_message_def post_def env_up_def Let_def)
  have st: "store (snd (send env_up ''42'' (cover item1) (fst (snd (construct_params item1))) item1
      (start Map.empty))) = Map.empty"
    using send_spec [of env_up "''42''" "cover item1" "fst (snd (construct_params item1))" item1
        "start Map.empty"] by simp
  have d: "store (deliver_commit env_up ''42'' item1 (start Map.empty)) = Map.empty"
    using s st by (simp add: deliver_commit_cases redis_set_exact)
  have u: "\<And>tr. redis_up env_up tr" by (simp add: env_up_def)
  show ?thesis using s d by (simp add: redis_set_exact redis_exists_def Let_def u)
qed

lemma main_env_up_fresh: "fst (main env_up (start Map.empty)) = Inl (NameError ''rss_author'')"
proof -
  let ?u = "''https://rsshub.app/ncm/artist/1''"
  let ?w = "log LAppStart (start Map.empty)"
  let ?wa = "log (LArtist ''a'' ?u) ?w"
  have up: "\<And>tr. redis_up env_up tr" by (simp add: env_up_def)
  obtain w1 where d: "download env_up ?u ?wa = (Inr [entry1], w1)"
    by (simp add: download_def upt_3 fetch_def env_up_def)
  have s1: "store w1 = Map.empty"
    using download_step [of ?wa env_up ?u] d by (simp add: step_ok_def)
  obtain w2 where p: "parse [entry1] w1 = ([item1], w2)"
    using parse_single [of w1] by (cases "parse [entry1] w1") simp
  have s2: "store w2 = Map.empty"
    using parse_step [of w1 "[entry1]"] p s1 by (simp add: step_ok_def)
  obtain w3 where f: "filter_items env_up [item1] w2 = (Inr [item1], w3)"
    by (simp add: filter_item_exact up s2)
  have "fst (process_source env_up (''a'', ?u) ?w) = Inl (NameError ''rss_author'')"
    using d p f by (simp add: process_source_def send_loop_exact)
  moreover have "rss_url_generator env_up = [(''a'', ?u)]"
    by (simp add: rss_url_generator_def env_up_def)
  ultimately show ?thesis
    by (auto simp: main_def split: prod.splits sum.splits)
qed

theorem name_error_iff_survivors_witness:
  "fst (main env_up (start Map.empty)) = Inl (NameError ''rss_author'') \<and>
   survivors (added (start Map.empty) (snd (main env_up (start Map.empty)))) \<and>
   filter is_post (added (start Map.empty) (snd (main env_up (start Map.empty)))) = []"
  using name_error_iff_survivors [of env_up "start Map.empty"] main_env_up_fresh by simp

theorem retry_bounds_witness:
  "fst (download env_down ''u'' (start Map.empty)) = Inl DownloadFailed \<and>
   length (filter is_get (added (start Map.empty) (snd (download env_down ''u'' (start Map.empty))))) \<le> 3 \<and>
   length (answers env_down [] (added (start Map.empty) (snd (download env_down ''u'' (start Map.empty))))) = 3 \<and>
   length (filter is_commit_attempt
     (added (start Map.empty) (snd (redis_set env_down ''1234'' (start Map.empty))))) \<le> 5"
proof -
  have d: "fst (download env_down ''u'' (start Map.empty)) = Inl DownloadFailed"
    by (simp add: download_def upt_3 fetch_def env_down_def)
  show ?thesis
    using retry_bounds [of "start Map.empty" env_down "''u''" "''1234''"] d by simp
qed

end
